theory Spec2Isabelle
  imports Main
begin

section \<open>JavaScript values and string primitives\<close>

text \<open>
  The content script \<^verbatim>\<open>scraper.js\<close> defines one class, \<^verbatim>\<open>PostScraper\<close>. Its methods are
  embedded below as HOL functions over an explicit state. Strings are \<^typ>\<open>string\<close>; the
  characters the program tests for are all ASCII.
\<close>

datatype error = SyntaxError | TypeError

datatype jsval = Null | Undefined | Str string | Num nat

abbreviation dquote :: char where "dquote \<equiv> CHR 0x22"
abbreviation tab :: char where "tab \<equiv> CHR 0x09"
abbreviation lf :: char where "lf \<equiv> CHR 0x0A"
abbreviation cr :: char where "cr \<equiv> CHR 0x0D"

text \<open>\<^verbatim>\<open>str.indexOf(c)\<close> for a one-character pattern: the first position, or \<open>-1\<close>.\<close>

fun indexOf :: "string \<Rightarrow> char \<Rightarrow> int" where
  "indexOf [] c = - 1"
| "indexOf (x # xs) c =
     (if x = c then 0
      else (let i = indexOf xs c in if i = - 1 then - 1 else i + 1))"

text \<open>\<^verbatim>\<open>str.includes(c)\<close> for a one-character pattern.\<close>

definition str_includes :: "string \<Rightarrow> char \<Rightarrow> bool" where
  "str_includes str c = (c \<in> set str)"

text \<open>\<^verbatim>\<open>str.replace(/c/g, r)\<close>: every occurrence of the character is replaced.\<close>

definition replaceAll :: "string \<Rightarrow> char \<Rightarrow> string \<Rightarrow> string" where
  "replaceAll str c r = concat (map (\<lambda>x. if x = c then r else [x]) str)"

text \<open>\<^verbatim>\<open>arr.join(sep)\<close> on an array of strings.\<close>

fun join :: "string \<Rightarrow> string list \<Rightarrow> string" where
  "join sep [] = []"
| "join sep [x] = x"
| "join sep (x # y # ys) = x @ sep @ join sep (y # ys)"

text \<open>Decimal rendering of a non-negative integer, as \<^verbatim>\<open>String(n)\<close> gives it.\<close>

fun digits :: "nat \<Rightarrow> string" where
  "digits n =
     (if n < 10 then [''0123456789'' ! n]
      else digits (n div 10) @ [''0123456789'' ! (n mod 10)])"

declare digits.simps [simp del]

fun jsString :: "jsval \<Rightarrow> string" where
  "jsString Null = ''null''"
| "jsString Undefined = ''undefined''"
| "jsString (Str s) = s"
| "jsString (Num n) = digits n"

text \<open>
  Removal of the ASCII white space at both ends of a string. \<^verbatim>\<open>String.prototype.trim\<close>
  itself, which knows all of Unicode's white space, is the browser's (see \<open>browser\<close>
  below); this one serves the small browser used for evaluation.
\<close>

definition isSpace :: "char \<Rightarrow> bool" where
  "isSpace c = (c = CHR '' '' \<or> c = tab \<or> c = lf \<or> c = cr \<or> c = CHR 0x0B \<or> c = CHR 0x0C)"

definition asciiTrim :: "string \<Rightarrow> string" where
  "asciiTrim str = rev (dropWhile isSpace (rev (dropWhile isSpace str)))"

section \<open>The export encoder\<close>

text \<open>
  \<^verbatim>\<open>escapeCSV(value)\<close>, lines 337-344:
  \<^verbatim>\<open>
    if (value === null || value === undefined) return '';
    const str = String(value);
    if (str.includes(',') || str.includes('"') || str.includes('\n') || str.includes('\r')) {
        return '"' + str.replace(/"/g, '""') + '"';
    }
    return str;
  \<close>
\<close>

definition escapeCSV :: "jsval \<Rightarrow> string" where
  "escapeCSV v =
     (if v = Null \<or> v = Undefined then []
      else (let str = jsString v in
        if str_includes str CHR '','' \<or> str_includes str dquote \<or> str_includes str lf \<or> str_includes str cr
        then [dquote] @ replaceAll str dquote [dquote, dquote] @ [dquote]
        else str))"

record link =
  url :: string
  linkText :: string

record image =
  src :: string
  alt :: string

text \<open>
  The object built by \<^verbatim>\<open>extractPostData\<close>. The source's field \<^verbatim>\<open>id\<close> is \<open>postId\<close> here
  and \<^verbatim>\<open>text\<close> is \<open>postText\<close>; \<^verbatim>\<open>null\<close> is \<open>None\<close>.
\<close>

record postData =
  timestamp :: string
  postId :: "string option"
  postText :: string
  links :: "link list"
  images :: "image list"
  metadata :: "(string \<times> string) list"

definition headers :: "string list" where
  "headers = [''Timestamp'', ''Post ID'', ''Post Text'', ''Links Count'', ''Links URLs'',
              ''Images Count'', ''Image URLs'']"

text \<open>The array \<^verbatim>\<open>row\<close> of lines 368-377.\<close>

definition row :: "postData \<Rightarrow> string list" where
  "row post =
     [escapeCSV (Str (timestamp post)),
      escapeCSV (case postId post of None \<Rightarrow> Null | Some i \<Rightarrow> Str i),
      escapeCSV (Str (postText post)),
      escapeCSV (Num (length (links post))),
      escapeCSV (Str (join ''; '' (map url (links post)))),
      escapeCSV (Num (length (images post))),
      escapeCSV (Str (join ''; '' (map src (images post))))]"

text \<open>
  \<^verbatim>\<open>convertToCSV(data)\<close>, lines 351-382: the sentinel for an empty array, else the header
  line and then \<^verbatim>\<open>csv += row.join('\t') + '\n'\<close> for each post in turn.
\<close>

definition convertToCSV :: "postData list \<Rightarrow> string" where
  "convertToCSV data =
     (if length data = 0 then ''No data to export''
      else foldl (\<lambda>csv post. csv @ join [tab] (row post) @ [lf])
             (join [tab] headers @ [lf]) data)"

section \<open>The page: nodes and selectors\<close>

text \<open>
  A DOM node has an identity (the object itself, which is what a \<^verbatim>\<open>WeakSet\<close> and a
  \<^verbatim>\<open>Set\<close> compare), a node type, a tag, attributes, the text the browser renders for it,
  and children.
\<close>

datatype node =
  Node (ident: nat) (nodeType: nat) (tagName: string)
       (attributes: "(string \<times> string) list") (innerText: string) (childNodes: "node list")

abbreviation (input) ELEMENT_NODE :: nat where "ELEMENT_NODE \<equiv> 1"

definition getAttribute :: "node \<Rightarrow> string \<Rightarrow> string option" where
  "getAttribute n name = map_of (attributes n) name"

text \<open>
  Reflected properties: \<^verbatim>\<open>node.id\<close> and \<^verbatim>\<open>img.alt\<close> are the attribute's value, or the
  empty string when the attribute is absent.
\<close>

definition reflect :: "node \<Rightarrow> string \<Rightarrow> string" where
  "reflect n name = (case getAttribute n name of None \<Rightarrow> [] | Some v \<Rightarrow> v)"

fun descendants :: "node \<Rightarrow> node list" where
  "descendants (Node i t g a x cs) = concat (map (\<lambda>c. c # descendants c) cs)"

text \<open>
  What the browser decides is a parameter of the model: whether a selector string parses,
  whether an element matches it, how an instant is printed, what
  \<^verbatim>\<open>String.prototype.trim\<close> removes, and the absolute URL that an \<^verbatim>\<open>href\<close> or \<^verbatim>\<open>src\<close>
  attribute resolves to on the page.
\<close>

record browser =
  selValid :: "string \<Rightarrow> bool"
  selMatches :: "string \<Rightarrow> node \<Rightarrow> bool"
  toISOString :: "nat \<Rightarrow> string"
  trim :: "string \<Rightarrow> string"
  resolveURL :: "string \<Rightarrow> string"

text \<open>
  The properties \<^verbatim>\<open>a.href\<close> and \<^verbatim>\<open>img.src\<close>: the empty string when the attribute is
  absent, else the URL the browser resolves its value to.
\<close>

definition urlProperty :: "browser \<Rightarrow> node \<Rightarrow> string \<Rightarrow> string" where
  "urlProperty B n name =
     (case getAttribute n name of None \<Rightarrow> [] | Some v \<Rightarrow> resolveURL B v)"

definition matches :: "browser \<Rightarrow> string \<Rightarrow> node \<Rightarrow> error + bool" where
  "matches B sel n = (if selValid B sel then Inr (selMatches B sel n) else Inl SyntaxError)"

definition querySelectorAll :: "browser \<Rightarrow> string \<Rightarrow> node \<Rightarrow> error + node list" where
  "querySelectorAll B sel n =
     (if selValid B sel
      then Inr (filter (\<lambda>d. nodeType d = ELEMENT_NODE \<and> selMatches B sel d) (descendants n))
      else Inl SyntaxError)"

definition querySelector :: "browser \<Rightarrow> string \<Rightarrow> node \<Rightarrow> error + node option" where
  "querySelector B sel n =
     (case querySelectorAll B sel n of
        Inl e \<Rightarrow> Inl e
      | Inr [] \<Rightarrow> Inr None
      | Inr (d # ds) \<Rightarrow> Inr (Some d))"

section \<open>The scraper object and the browser around it\<close>

datatype mutation = Mutation (addedNodes: "node list")

text \<open>The two closures the program hands to \<^verbatim>\<open>setTimeout\<close> (lines 263 and 211).\<close>

datatype callback = HandleMutations "mutation list" | ProcessPost node

datatype timer = Timer (tid: nat) (due: nat) (callback: callback)

text \<open>
  The first twelve fields are those of the object (\<^verbatim>\<open>this.config\<close> and the state
  variables of the constructor); \<open>processed\<close> holds node identities. The configured
  \<^verbatim>\<open>observeTarget\<close> is the body of the document and is not a field. The others are the
  browser's side: the document, the clock, the pending timers, the mutation observers
  that are observing, the \<^verbatim>\<open>style.border\<close> of the nodes the program has painted, and
  the files it has saved. \<open>resolved\<close> is an observation log with one entry for each completed
  run of \<^verbatim>\<open>handleMutations\<close>: the identities in its \<^verbatim>\<open>newPosts\<close>, in insertion order.
\<close>

record state =
  containerSelector :: string
  contentSelector :: string
  debounceDelay :: nat
  maxRetries :: nat
  retryDelay :: nat
  processed :: "nat set"
  processedIds :: "string set"
  collectedData :: "postData list"
  debounceTimer :: "nat option"
  retryCount :: nat
  observer :: "nat option"
  isActive :: bool
  document :: node
  now :: nat
  timers :: "timer list"
  nextTimer :: nat
  observing :: "nat list"
  nextObserver :: nat
  borders :: "nat \<rightharpoonup> string"
  downloads :: "(string \<times> string) list"
  resolved :: "nat list list"

text \<open>The constructor, lines 9-27, on a page whose document is \<open>doc\<close>.\<close>

definition init :: "node \<Rightarrow> state" where
  \<open>init doc =
     \<lparr>containerSelector = ''[role="article"]'', contentSelector = [], debounceDelay = 100,
      maxRetries = 3, retryDelay = 1000, processed = {}, processedIds = {},
      collectedData = [], debounceTimer = None, retryCount = 0, observer = None,
      isActive = False, document = doc, now = 0, timers = [], nextTimer = 1,
      observing = [], nextObserver = 1, borders = Map.empty, downloads = [],
      resolved = []\<rparr>\<close>

text \<open>
  \<^verbatim>\<open>setTimeout\<close> returns a fresh positive handle; \<^verbatim>\<open>clearTimeout\<close> of \<^verbatim>\<open>null\<close> or of a
  handle that is no longer pending does nothing.
\<close>

definition setTimeout :: "callback \<Rightarrow> nat \<Rightarrow> state \<Rightarrow> nat \<times> state" where
  "setTimeout cb delay s =
     (nextTimer s,
      s\<lparr>timers := timers s @ [Timer (nextTimer s) (now s + delay) cb],
        nextTimer := nextTimer s + 1\<rparr>)"

definition clearTimeout :: "nat option \<Rightarrow> state \<Rightarrow> state" where
  "clearTimeout h s =
     (case h of None \<Rightarrow> s
      | Some i \<Rightarrow> s\<lparr>timers := filter (\<lambda>t. tid t \<noteq> i) (timers s)\<rparr>)"

section \<open>The methods of PostScraper\<close>

text \<open>
  \<^verbatim>\<open>extractPostData(post)\<close>, lines 221-255. A selector that does not parse makes
  \<^verbatim>\<open>querySelector\<close> throw, which is the result \<open>Inl\<close>. The identifier is
  \<^verbatim>\<open>post.id || post.getAttribute('data-id') || null\<close>: an empty string is falsy.
\<close>

definition extractPostData :: "browser \<Rightarrow> node \<Rightarrow> state \<Rightarrow> error + postData" where
  "extractPostData B post s =
     (case querySelector B (contentSelector s) post of
        Inl e \<Rightarrow> Inl e
      | Inr contentElement \<Rightarrow>
          (let txt = (case contentElement of
                        Some c \<Rightarrow> trim B (innerText c)
                      | None \<Rightarrow> trim B (innerText post));
               data = \<lparr>timestamp = toISOString B (now s),
                       postId = (if reflect post ''id'' \<noteq> [] then Some (reflect post ''id'')
                                 else (case getAttribute post ''data-id'' of
                                         Some v \<Rightarrow> if v \<noteq> [] then Some v else None
                                       | None \<Rightarrow> None)),
                       postText = txt, links = [], images = [], metadata = []\<rparr>
           in case querySelectorAll B ''a'' post of
                Inl e \<Rightarrow> Inl e
              | Inr anchors \<Rightarrow>
                  (let data1 = data\<lparr>links :=
                         map (\<lambda>l. \<lparr>url = urlProperty B l ''href'',
                                   linkText = trim B (innerText l)\<rparr>)
                           anchors\<rparr>
                   in case querySelectorAll B ''img'' post of
                        Inl e \<Rightarrow> Inl e
                      | Inr imgs \<Rightarrow>
                          Inr (data1\<lparr>images :=
                                 map (\<lambda>i. \<lparr>src = urlProperty B i ''src'',
                                           alt = reflect i ''alt''\<rparr>)
                                   imgs\<rparr>))))"

text \<open>
  The \<^verbatim>\<open>catch\<close> block of \<^verbatim>\<open>processPost\<close>, lines 204-213: while the shared counter is below
  \<^verbatim>\<open>maxRetries\<close>, it is incremented and a retry of the same post is scheduled.
\<close>

definition retryLater :: "node \<Rightarrow> state \<Rightarrow> state" where
  "retryLater post s =
     (if retryCount s < maxRetries s
      then snd (setTimeout (ProcessPost post) (retryDelay s)
                  (s\<lparr>retryCount := retryCount s + 1\<rparr>))
      else s)"

definition markerSelector :: string where
  "markerSelector = ''.update-components-header__image''"

text \<open>
  \<^verbatim>\<open>processPost(post)\<close>, lines 173-214. The two early returns come first; then the node
  and its \<^verbatim>\<open>id\<close> are marked; then the repost check; then the extraction. Whatever is
  thrown inside the \<^verbatim>\<open>try\<close> is caught, and the marks made before it stay.
\<close>

definition processPost :: "browser \<Rightarrow> node \<Rightarrow> state \<Rightarrow> state" where
  "processPost B post s =
     (if ident post \<in> processed s then s
      else (let pid = reflect post ''id'' in
        if pid \<noteq> [] \<and> pid \<in> processedIds s then s
        else (let s1 = s\<lparr>processed := insert (ident post) (processed s)\<rparr>;
                  s2 = (if pid \<noteq> [] then s1\<lparr>processedIds := insert pid (processedIds s1)\<rparr>
                        else s1)
              in case querySelector B markerSelector post of
                   Inl e \<Rightarrow> retryLater post s2
                 | Inr (Some m) \<Rightarrow>
                     s2\<lparr>borders := (borders s2)(ident post \<mapsto> ''5px solid red'')\<rparr>
                 | Inr None \<Rightarrow>
                     (let s3 = s2\<lparr>borders := (borders s2)(ident post \<mapsto> ''5px solid green'')\<rparr>
                      in case extractPostData B post s3 of
                           Inl e \<Rightarrow> retryLater post s3
                         | Inr postData \<Rightarrow>
                             s3\<lparr>collectedData := collectedData s3 @ [postData],
                                retryCount := 0\<rparr>))))"

text \<open>\<^verbatim>\<open>processExistingPosts()\<close>, lines 159-167; an exception leaves the state as it is.\<close>

definition processExistingPosts :: "browser \<Rightarrow> state \<Rightarrow> state" where
  "processExistingPosts B s =
     (case querySelectorAll B (containerSelector s) (document s) of
        Inl e \<Rightarrow> s
      | Inr existingPosts \<Rightarrow> foldl (\<lambda>s' post. processPost B post s') s existingPosts)"

text \<open>
  \<^verbatim>\<open>startScraper()\<close>, lines 110-133: the guard, the flag, the scan, then a new observer
  that observes the page.
\<close>

definition startScraper :: "browser \<Rightarrow> state \<Rightarrow> state" where
  "startScraper B s =
     (if isActive s then s
      else (let s1 = s\<lparr>isActive := True\<rparr>;
                s2 = processExistingPosts B s1;
                ob = nextObserver s2
            in s2\<lparr>observer := Some ob, observing := observing s2 @ [ob],
                  nextObserver := ob + 1\<rparr>))"

text \<open>\<^verbatim>\<open>stopScraper()\<close>, lines 138-154. A timer handle is a positive number, hence truthy.\<close>

definition stopScraper :: "state \<Rightarrow> state" where
  "stopScraper s =
     (if \<not> isActive s then s
      else (let s1 = s\<lparr>isActive := False\<rparr>;
                s2 = (case observer s1 of
                        Some ob \<Rightarrow> s1\<lparr>observing := removeAll ob (observing s1),
                                      observer := None\<rparr>
                      | None \<Rightarrow> s1);
                s3 = (case debounceTimer s2 of
                        Some h \<Rightarrow> (clearTimeout (Some h) s2)\<lparr>debounceTimer := None\<rparr>
                      | None \<Rightarrow> s2)
            in s3))"

text \<open>
  \<^verbatim>\<open>debouncedMutationHandler(mutations)\<close>, lines 261-266: the pending timer is cleared and
  a new one is set, whose closure holds the \<^verbatim>\<open>mutations\<close> of this call.
\<close>

definition debouncedMutationHandler :: "mutation list \<Rightarrow> state \<Rightarrow> state" where
  "debouncedMutationHandler mutations s =
     (let s1 = clearTimeout (debounceTimer s) s;
          (h, s2) = setTimeout (HandleMutations mutations) (debounceDelay s1) s1
      in s2\<lparr>debounceTimer := Some h\<rparr>)"

text \<open>\<^verbatim>\<open>newPosts.add(node)\<close> on a \<^verbatim>\<open>Set\<close> kept in insertion order.\<close>

definition setAdd :: "node \<Rightarrow> node list \<Rightarrow> node list" where
  "setAdd n xs = (if ident n \<in> ident ` set xs then xs else xs @ [n])"

fun forEachE :: "('a \<Rightarrow> 'b \<Rightarrow> error + 'b) \<Rightarrow> 'a list \<Rightarrow> 'b \<Rightarrow> error + 'b" where
  "forEachE f [] acc = Inr acc"
| "forEachE f (x # xs) acc =
     (case f x acc of Inl e \<Rightarrow> Inl e | Inr acc' \<Rightarrow> forEachE f xs acc')"

text \<open>The body of the inner loop of \<^verbatim>\<open>handleMutations\<close>, lines 277-289.\<close>

definition addNode :: "browser \<Rightarrow> string \<Rightarrow> node \<Rightarrow> node list \<Rightarrow> error + node list" where
  "addNode B sel n newPosts =
     (if nodeType n = ELEMENT_NODE then
        (case matches B sel n of
           Inl e \<Rightarrow> Inl e
         | Inr m \<Rightarrow>
             (let newPosts1 = (if m then setAdd n newPosts else newPosts)
              in case querySelectorAll B sel n of
                   Inl e \<Rightarrow> Inl e
                 | Inr posts \<Rightarrow> Inr (foldl (\<lambda>acc post. setAdd post acc) newPosts1 posts)))
      else Inr newPosts)"

definition collectPosts :: "browser \<Rightarrow> string \<Rightarrow> mutation list \<Rightarrow> error + node list" where
  "collectPosts B sel mutations =
     forEachE (\<lambda>mutation. forEachE (addNode B sel) (addedNodes mutation)) mutations []"

text \<open>
  \<^verbatim>\<open>handleMutations(mutations)\<close>, lines 272-299. Nothing here catches: if the selector does
  not parse, the callback ends before any post is processed.
\<close>

definition handleMutations :: "browser \<Rightarrow> mutation list \<Rightarrow> state \<Rightarrow> state" where
  "handleMutations B mutations s =
     (case collectPosts B (containerSelector s) mutations of
        Inl e \<Rightarrow> s
      | Inr newPosts \<Rightarrow>
          (let s1 = foldl (\<lambda>s' post. processPost B post s') s newPosts
           in s1\<lparr>resolved := resolved s1 @ [map ident newPosts]\<rparr>))"

text \<open>
  \<^verbatim>\<open>downloadCSV(csvContent)\<close>, lines 389-411, with the default file name: the file that
  is saved. The link element that lines 403-405 put into the body and take out again is
  a change of the page like any other: an observer that is observing is told of it after
  the message has been handled, which is an event \<open>DomMutation\<close> of the section on events.
\<close>

definition downloadCSV :: "browser \<Rightarrow> string \<Rightarrow> state \<Rightarrow> state" where
  "downloadCSV B csvContent s =
     (let stamp = map (\<lambda>c. if c = CHR '':'' \<or> c = CHR ''.'' then CHR ''-'' else c)
                    (toISOString B (now s));
          filename = ''posts_export_'' @ stamp @ ''.csv''
      in s\<lparr>downloads := downloads s @ [(filename, csvContent)]\<rparr>)"

text \<open>\<^verbatim>\<open>downloadData()\<close>, lines 305-329.\<close>

definition downloadData :: "browser \<Rightarrow> state \<Rightarrow> bool \<times> state" where
  "downloadData B s =
     (if length (collectedData s) = 0 then (False, s)
      else (let csvContent = convertToCSV (collectedData s)
            in (True, downloadCSV B csvContent s)))"

text \<open>\<^verbatim>\<open>cleanData()\<close>, lines 417-420.\<close>

definition cleanData :: "state \<Rightarrow> bool \<times> state" where
  "cleanData s = (True, s\<lparr>collectedData := []\<rparr>)"

text \<open>
  \<^verbatim>\<open>handleMessage(request, sender, sendResponse)\<close>, lines 64-105. The result is what is
  passed to \<^verbatim>\<open>sendResponse\<close>, if anything, and the new state. A start request without
  a selector throws at \<^verbatim>\<open>request.selector.indexOf\<close> before anything is done.
\<close>

record request =
  action :: string
  selector :: "string option"

datatype response = Reply bool string | Count bool nat

definition handleMessage :: "browser \<Rightarrow> request \<Rightarrow> state \<Rightarrow> response option \<times> state" where
  "handleMessage B request s =
     (if action request = ''startScraper'' then
        (case selector request of
           None \<Rightarrow> (None, s)
         | Some sel \<Rightarrow>
             if indexOf sel CHR ''.'' = - 1
             then (Some (Reply True ''Scraper started''),
                   startScraper B (s\<lparr>contentSelector := ''.'' @ sel\<rparr>))
             else if indexOf sel CHR ''.'' = 0
             then (Some (Reply True ''Scraper started''),
                   startScraper B (s\<lparr>contentSelector := sel\<rparr>))
             else (Some (Reply False ''Invalid selector''), s))
      else if action request = ''stopScraper'' then
        (Some (Reply True ''Scraper stopped''), stopScraper s)
      else if action request = ''downloadData'' then
        (let (downloaded, s1) = downloadData B s
         in (Some (Count downloaded (length (collectedData s1))), s1))
      else if action request = ''getDataCount'' then
        (Some (Count True (length (collectedData s))), s)
      else if action request = ''cleanData'' then
        (let (success, s1) = cleanData s
         in (Some (Count success (length (collectedData s1))), s1))
      else (Some (Reply False ''Undefined action''), s))"

section \<open>Events\<close>

text \<open>
  What can happen to the page, one task at a time: a message from the extension arrives;
  the stored flag read by \<^verbatim>\<open>loadState\<close> arrives; the page changes and every observing
  mutation observer is called with the batch of records; time passes; a pending timer
  whose time has come is run.
\<close>

datatype event =
    Message request
  | StateLoaded bool
  | DomMutation node "mutation list"
  | TimePasses nat
  | TimerFires nat

definition runCallback :: "browser \<Rightarrow> callback \<Rightarrow> state \<Rightarrow> state" where
  "runCallback B cb s =
     (case cb of
        HandleMutations mutations \<Rightarrow> handleMutations B mutations s
      | ProcessPost post \<Rightarrow> processPost B post s)"

definition step :: "browser \<Rightarrow> event \<Rightarrow> state \<Rightarrow> state" where
  "step B ev s =
     (case ev of
        Message request \<Rightarrow> snd (handleMessage B request s)
      | StateLoaded flag \<Rightarrow> (if flag then startScraper B s else s)
      | DomMutation doc mutations \<Rightarrow>
          foldl (\<lambda>s' ob. debouncedMutationHandler mutations s')
            (s\<lparr>document := doc\<rparr>) (observing s)
      | TimePasses d \<Rightarrow> s\<lparr>now := now s + d\<rparr>
      | TimerFires h \<Rightarrow>
          (case find (\<lambda>t. tid t = h \<and> due t \<le> now s) (timers s) of
             None \<Rightarrow> s
           | Some t \<Rightarrow>
               runCallback B (callback t)
                 (s\<lparr>timers := filter (\<lambda>t'. tid t' \<noteq> h) (timers s)\<rparr>)))"

definition run :: "browser \<Rightarrow> event list \<Rightarrow> state \<Rightarrow> state" where
  "run B evs s = foldl (\<lambda>s' ev. step B ev s') s evs"

section \<open>Notions used to state the properties\<close>

text \<open>
  Following the specification's words for the export encoder: a field that contains the
  separator, a quote character or a line break is wrapped in quotes with its quotes
  doubled; any other field is left as it is.
\<close>

fun doubleQuotes :: "string \<Rightarrow> string" where
  "doubleQuotes [] = []"
| "doubleQuotes (c # cs) =
     (if c = dquote then dquote # dquote # doubleQuotes cs else c # doubleQuotes cs)"

definition spec_encodeField :: "char \<Rightarrow> string \<Rightarrow> string" where
  "spec_encodeField sep str =
     (if sep \<in> set str \<or> dquote \<in> set str \<or> lf \<in> set str \<or> cr \<in> set str
      then [dquote] @ doubleQuotes str @ [dquote] else str)"

text \<open>
  Reading an export back: a quote character opens or closes a quoted stretch, and a line
  feed ends a line only outside quotes. \<open>quoteState q str\<close> tells whether the reader is
  inside quotes after \<open>str\<close>, having started in state \<open>q\<close>; \<open>countRecords q str\<close> is the
  number of lines that end in \<open>str\<close>.
\<close>

fun quoteState :: "bool \<Rightarrow> string \<Rightarrow> bool" where
  "quoteState q [] = q"
| "quoteState q (c # cs) = quoteState (if c = dquote then \<not> q else q) cs"

fun countRecords :: "bool \<Rightarrow> string \<Rightarrow> nat" where
  "countRecords q [] = 0"
| "countRecords q (c # cs) =
     (if c = dquote then countRecords (\<not> q) cs
      else if c = lf \<and> \<not> q then Suc (countRecords q cs)
      else countRecords q cs)"

text \<open>
  Reading one line of an export back: a tab outside quotes ends a column. \<open>columns line\<close>
  is the list of the columns of \<open>line\<close>, each as it stands in the line.
\<close>

fun splitFields :: "bool \<Rightarrow> string \<Rightarrow> string \<Rightarrow> string list" where
  "splitFields q cur [] = [cur]"
| "splitFields q cur (c # cs) =
     (if c = dquote then splitFields (\<not> q) (cur @ [c]) cs
      else if c = tab \<and> \<not> q then cur # splitFields q [] cs
      else splitFields q (cur @ [c]) cs)"

definition columns :: "string \<Rightarrow> string list" where
  "columns line = splitFields False [] line"

text \<open>
  A value whose encoding is safe in a line of tab-separated columns: it holds no tab, or
  it holds one of the characters for which \<^verbatim>\<open>escapeCSV\<close> quotes.
\<close>

definition tabSafe :: "jsval \<Rightarrow> bool" where
  "tabSafe v =
     (tab \<notin> set (jsString v) \<or> CHR '','' \<in> set (jsString v) \<or> dquote \<in> set (jsString v) \<or>
      lf \<in> set (jsString v) \<or> cr \<in> set (jsString v))"

text \<open>
  The decision that lines 176 and 179 of \<^verbatim>\<open>processPost\<close> take: the post goes on exactly
  when neither early return is taken.
\<close>

definition shouldProcess :: "node \<Rightarrow> state \<Rightarrow> bool" where
  "shouldProcess post s =
     (\<not> (ident post \<in> processed s) \<and>
      \<not> (reflect post ''id'' \<noteq> [] \<and> reflect post ''id'' \<in> processedIds s))"

text \<open>Everything \<open>s\<close> has marked as seen is still marked in \<open>s'\<close>.\<close>

definition seenBy :: "state \<Rightarrow> state \<Rightarrow> bool" where
  "seenBy s s' = (processed s \<subseteq> processed s' \<and> processedIds s \<subseteq> processedIds s')"

text \<open>No two collected records carry the same non-empty identifier.\<close>

definition noDuplicateIds :: "postData list \<Rightarrow> bool" where
  "noDuplicateIds data =
     distinct (filter (\<lambda>i. i \<noteq> [])
                 (concat (map (\<lambda>p. case postId p of None \<Rightarrow> [] | Some i \<Rightarrow> [i]) data)))"

text \<open>A pending timer set by \<^verbatim>\<open>debouncedMutationHandler\<close>.\<close>

definition isDebounce :: "timer \<Rightarrow> bool" where
  "isDebounce t =
     (case callback t of HandleMutations mutations \<Rightarrow> True | ProcessPost post \<Rightarrow> False)"

text \<open>
  What holds of every state the object can be in: a pending debounce timer is the one
  whose handle is stored; the observers that observe are the stored one, if any; the
  object is active exactly when it holds an observer; and while it is not active no
  debounce timer is pending.
\<close>

definition wellFormed :: "state \<Rightarrow> bool" where
  "wellFormed s =
     ((\<forall>t \<in> set (timers s). isDebounce t \<longrightarrow> debounceTimer s = Some (tid t)) \<and>
      observing s = (case observer s of None \<Rightarrow> [] | Some ob \<Rightarrow> [ob]) \<and>
      (isActive s \<longleftrightarrow> observer s \<noteq> None) \<and>
      (\<not> isActive s \<longrightarrow> (\<forall>t \<in> set (timers s). \<not> isDebounce t)))"

text \<open>The events that ask the scraper to start.\<close>

definition startEvent :: "event \<Rightarrow> bool" where
  "startEvent ev =
     (case ev of
        Message request \<Rightarrow> action request = ''startScraper''
      | StateLoaded flag \<Rightarrow> flag
      | DomMutation doc mutations \<Rightarrow> False
      | TimePasses d \<Rightarrow> False
      | TimerFires h \<Rightarrow> False)"

definition quiet :: "state \<Rightarrow> bool" where
  "quiet s = (\<not> isActive s \<and> observing s = [] \<and> filter isDebounce (timers s) = [])"

text \<open>The fields that \<^verbatim>\<open>processPost\<close> never writes.\<close>

definition sameWatcher :: "state \<Rightarrow> state \<Rightarrow> bool" where
  "sameWatcher s s' =
     (debounceTimer s' = debounceTimer s \<and> observer s' = observer s \<and>
      observing s' = observing s \<and> isActive s' = isActive s \<and> resolved s' = resolved s \<and>
      filter isDebounce (timers s') = filter isDebounce (timers s) \<and>
      contentSelector s' = contentSelector s \<and> containerSelector s' = containerSelector s \<and>
      nextObserver s' = nextObserver s \<and> document s' = document s)"

section \<open>A small page to evaluate on\<close>

text \<open>
  A browser that knows the three shapes of selector the program uses: the attribute
  selector of the container, a single class, and a tag name. It rejects the empty
  selector and the lone dot. It trims ASCII white space and takes every URL as absolute.
\<close>

definition demoBrowser :: browser where
  \<open>demoBrowser =
     \<lparr>selValid = (\<lambda>sel. sel \<noteq> [] \<and> sel \<noteq> ''.''),
      selMatches = (\<lambda>sel n.
         if sel = ''[role="article"]'' then getAttribute n ''role'' = Some ''article''
         else if hd sel = CHR ''.'' then getAttribute n ''class'' = Some (tl sel)
         else tagName n = sel),
      toISOString = (\<lambda>t. ''T+'' @ digits t),
      trim = asciiTrim,
      resolveURL = (\<lambda>u. u)\<rparr>\<close>

definition article :: "nat \<Rightarrow> (string \<times> string) list \<Rightarrow> string \<Rightarrow> node list \<Rightarrow> node" where
  "article i attrs txt kids =
     Node i ELEMENT_NODE ''div'' ((''role'', ''article'') # attrs) txt kids"

definition page :: "node list \<Rightarrow> node" where
  "page nodes = Node 0 9 ''#document'' [] [] nodes"

definition startRequest :: "string \<Rightarrow> request" where
  "startRequest sel = \<lparr>action = ''startScraper'', selector = Some sel\<rparr>"

text \<open>
  Two bursts of insertions 50 ms apart, each adding one post, then 100 ms of silence in
  which the browser runs whatever timer is due.
\<close>

definition twoBatches :: "event list" where
  "twoBatches =
     [Message (startRequest ''text''),
      DomMutation (page [article 3 [(''id'', ''c'')] ''third'' []])
        [Mutation [article 3 [(''id'', ''c'')] ''third'' []]],
      TimePasses 50,
      DomMutation (page [article 3 [(''id'', ''c'')] ''third'' [],
                         article 4 [(''id'', ''d'')] ''fourth'' []])
        [Mutation [article 4 [(''id'', ''d'')] ''fourth'' []]],
      TimePasses 100,
      TimerFires 1,
      TimerFires 2]"

text \<open>A page that shows the same post in two elements, identified by \<^verbatim>\<open>data-id\<close>.\<close>

definition twinPage :: node where
  "twinPage =
     page [article 1 [(''data-id'', ''urn:li:1'')] ''first'' [],
           article 2 [(''data-id'', ''urn:li:1'')] ''again'' []]"

text \<open>The state after one post with \<^verbatim>\<open>id="x"\<close> has been processed.\<close>

definition afterFirst :: state where
  "afterFirst = processPost demoBrowser (article 5 [(''id'', ''x'')] ''e'' []) (init (page []))"

text \<open>A post that holds the marker of a shared post.\<close>

definition repost :: node where
  "repost =
     article 7 [] ''shared''
       [Node 8 ELEMENT_NODE ''img'' [(''class'', ''update-components-header__image'')] [] []]"

text \<open>A page with one post whose text holds a tab.\<close>

definition tabPage :: node where
  "tabPage = page [article 1 [] (''a'' @ [tab] @ ''b'') []]"

text \<open>
  An element, always the same one, that holds the marker of a shared post and whose \<^verbatim>\<open>id\<close>
  attribute is \<open>i\<close>.
\<close>

definition seenIdRepost :: "string \<Rightarrow> node" where
  "seenIdRepost i =
     article 9 [(''id'', i)] ''shared''
       [Node 8 ELEMENT_NODE ''img'' [(''class'', ''update-components-header__image'')] [] []]"

section \<open>The encoder: lemmas\<close>

lemma replaceAll_doubleQuotes: "replaceAll str dquote [dquote, dquote] = doubleQuotes str"
  by (induction str) (simp_all add: replaceAll_def)

lemma quoteState_append: "quoteState q (xs @ ys) = quoteState (quoteState q xs) ys"
  by (induction xs arbitrary: q) simp_all

lemma countRecords_append:
  "countRecords q (xs @ ys) = countRecords q xs + countRecords (quoteState q xs) ys"
  by (induction xs arbitrary: q) simp_all

lemma plain_quoteState: "dquote \<notin> set xs \<Longrightarrow> quoteState q xs = q"
  by (induction xs) auto

lemma plain_countRecords: "dquote \<notin> set xs \<Longrightarrow> lf \<notin> set xs \<Longrightarrow> countRecords q xs = 0"
  by (induction xs) auto

lemma doubled_quoteState: "quoteState q (replaceAll xs dquote [dquote, dquote]) = q"
  by (induction xs arbitrary: q) (simp_all add: replaceAll_def)

lemma doubled_countRecords: "countRecords True (replaceAll xs dquote [dquote, dquote]) = 0"
  by (induction xs) (simp_all add: replaceAll_def)

lemma escapeCSV_quoteState: "quoteState False (escapeCSV v) = False"
  by (simp add: escapeCSV_def Let_def str_includes_def quoteState_append doubled_quoteState
        plain_quoteState)

lemma escapeCSV_countRecords: "countRecords False (escapeCSV v) = 0"
  by (simp add: escapeCSV_def Let_def str_includes_def countRecords_append doubled_quoteState
        doubled_countRecords plain_countRecords)

lemma join_tab_quoteState:
  "\<forall>f \<in> set fs. quoteState False f = False \<Longrightarrow> quoteState False (join [tab] fs) = False"
  by (induction "[tab]" fs rule: join.induct) (simp_all add: quoteState_append)

lemma join_tab_countRecords:
  "\<forall>f \<in> set fs. quoteState False f = False \<and> countRecords False f = 0
   \<Longrightarrow> countRecords False (join [tab] fs) = 0"
  by (induction "[tab]" fs rule: join.induct)
     (simp_all add: countRecords_append quoteState_append)

lemma row_quoteState: "quoteState False (join [tab] (row p)) = False"
  by (rule join_tab_quoteState) (simp add: row_def escapeCSV_quoteState)

lemma row_countRecords: "countRecords False (join [tab] (row p)) = 0"
  by (rule join_tab_countRecords) (simp add: row_def escapeCSV_quoteState escapeCSV_countRecords)

lemma header_line: "quoteState False (join [tab] headers) = False" "countRecords False (join [tab] headers) = 0"
  by (simp_all add: headers_def)

lemma foldl_lines:
  "foldl (\<lambda>csv post. csv @ f post) acc data = acc @ concat (map f data)"
  by (induction data arbitrary: acc) simp_all

lemma lines_quoteState:
  "quoteState False (concat (map (\<lambda>p. join [tab] (row p) @ [lf]) data)) = False"
  by (induction data) (simp_all add: quoteState_append row_quoteState)

lemma lines_countRecords:
  "countRecords False (concat (map (\<lambda>p. join [tab] (row p) @ [lf]) data)) = length data"
  by (induction data) (simp_all add: countRecords_append quoteState_append row_quoteState row_countRecords)

lemma splitFields_plain:
  "tab \<notin> set f \<Longrightarrow> splitFields q cur (f @ rest) = splitFields (quoteState q f) (cur @ f) rest"
  by (induction f arbitrary: q cur) auto

lemma splitFields_doubled:
  "splitFields True cur (replaceAll str dquote [dquote, dquote] @ rest)
     = splitFields True (cur @ replaceAll str dquote [dquote, dquote]) rest"
  by (induction str arbitrary: cur) (simp_all add: replaceAll_def)

lemma splitFields_escapeCSV:
  assumes "tabSafe v"
  shows "splitFields False cur (escapeCSV v @ rest) = splitFields False (cur @ escapeCSV v) rest"
proof (cases "v = Null \<or> v = Undefined")
  case True
  then show ?thesis by (auto simp: escapeCSV_def)
next
  case False
  show ?thesis
  proof (cases "CHR '','' \<in> set (jsString v) \<or> dquote \<in> set (jsString v) \<or>
                lf \<in> set (jsString v) \<or> cr \<in> set (jsString v)")
    case True
    with False have e: "escapeCSV v = [dquote] @ replaceAll (jsString v) dquote [dquote, dquote] @ [dquote]"
      by (simp add: escapeCSV_def Let_def str_includes_def)
    show ?thesis
      by (simp add: e splitFields_doubled)
  next
    case no: False
    with False have e: "escapeCSV v = jsString v"
      by (simp add: escapeCSV_def Let_def str_includes_def)
    from no assms have t: "tab \<notin> set (jsString v)" by (auto simp: tabSafe_def)
    from no have "quoteState False (jsString v) = False" by (simp add: plain_quoteState)
    with t show ?thesis by (simp add: e splitFields_plain)
  qed
qed

lemma splitFields_join:
  "vs \<noteq> [] \<Longrightarrow> \<forall>v \<in> set vs. tabSafe v
   \<Longrightarrow> splitFields False cur (join [tab] (map escapeCSV vs))
       = (cur @ escapeCSV (hd vs)) # tl (map escapeCSV vs)"
proof (induction vs arbitrary: cur)
  case Nil
  then show ?case by simp
next
  case (Cons v vs)
  show ?case
  proof (cases vs)
    case Nil
    from Cons.prems have "tabSafe v" by simp
    from splitFields_escapeCSV [OF this, of cur "[]"] Nil show ?thesis by simp
  next
    case (Cons w ws)
    from Cons.prems have tv: "tabSafe v" by simp
    from Cons.prems Cons have "\<forall>x \<in> set vs. tabSafe x" and "vs \<noteq> []" by simp_all
    with Cons.IH [of "[]"] have ih: "splitFields False [] (join [tab] (map escapeCSV vs))
        = escapeCSV (hd vs) # tl (map escapeCSV vs)" by simp
    have "join [tab] (map escapeCSV (v # vs)) = escapeCSV v @ tab # join [tab] (map escapeCSV vs)"
      using Cons by simp
    then have "splitFields False cur (join [tab] (map escapeCSV (v # vs)))
        = splitFields False (cur @ escapeCSV v) (tab # join [tab] (map escapeCSV vs))"
      using splitFields_escapeCSV [OF tv] by simp
    also have "\<dots> = (cur @ escapeCSV v) # splitFields False [] (join [tab] (map escapeCSV vs))"
      by simp
    finally show ?thesis using ih Cons by simp
  qed
qed

lemma digits_no_tab: "tab \<notin> set (digits n)"
proof (induction n rule: digits.induct)
  case (1 n)
  have d: "\<And>k. k < 10 \<Longrightarrow> ''0123456789'' ! k \<noteq> tab"
  proof -
    fix k :: nat assume "k < 10"
    then have "k \<in> {0,1,2,3,4,5,6,7,8,9}" by auto
    then show "''0123456789'' ! k \<noteq> tab" by auto
  qed
  show ?case
  proof (cases "n < 10")
    case True
    then show ?thesis using d [of n] by (subst digits.simps) simp
  next
    case False
    with 1 have "tab \<notin> set (digits (n div 10))" by simp
    moreover have "''0123456789'' ! (n mod 10) \<noteq> tab" by (rule d) simp
    ultimately show ?thesis using False by (subst digits.simps) simp
  qed
qed

lemma columns_in_order:
  assumes "tabSafe (Str (timestamp p))"
    and "tabSafe (case postId p of None \<Rightarrow> Null | Some i \<Rightarrow> Str i)"
    and "tabSafe (Str (postText p))"
    and "tabSafe (Str (join ''; '' (map url (links p))))"
    and "tabSafe (Str (join ''; '' (map src (images p))))"
  shows "columns (join [tab] (row p)) = row p"
proof -
  let ?vs = "[Str (timestamp p), (case postId p of None \<Rightarrow> Null | Some i \<Rightarrow> Str i),
      Str (postText p), Num (length (links p)), Str (join ''; '' (map url (links p))),
      Num (length (images p)), Str (join ''; '' (map src (images p)))]"
  have n: "\<And>k. tabSafe (Num k)" by (simp add: tabSafe_def digits_no_tab)
  have r: "row p = map escapeCSV ?vs" by (simp add: row_def)
  have "\<forall>v \<in> set ?vs. tabSafe v" using assms n by simp
  from splitFields_join [OF _ this, of "[]"] show ?thesis
    by (simp add: columns_def r)
qed

section \<open>The dedup index: lemmas\<close>

lemma seenBy_refl: "seenBy s s"
  by (simp add: seenBy_def)

lemma seenBy_trans: "seenBy s s' \<Longrightarrow> seenBy s' s'' \<Longrightarrow> seenBy s s''"
  by (auto simp: seenBy_def)

lemma retryLater_seen:
  "processed (retryLater post s) = processed s"
  "processedIds (retryLater post s) = processedIds s"
  "collectedData (retryLater post s) = collectedData s"
  by (simp_all add: retryLater_def setTimeout_def)

lemma processPost_rejected: "\<not> shouldProcess post s \<Longrightarrow> processPost B post s = s"
  by (auto simp: shouldProcess_def processPost_def Let_def)

lemma processPost_marks:
  "shouldProcess post s \<Longrightarrow> ident post \<in> processed (processPost B post s)"
  by (auto simp: shouldProcess_def processPost_def Let_def retryLater_seen
           split: sum.splits option.splits)

lemma processPost_seenBy: "seenBy s (processPost B post s)"
  by (auto simp: seenBy_def processPost_def Let_def retryLater_seen
           split: sum.splits option.splits)

lemma foldl_processPost_seenBy:
  "seenBy s (foldl (\<lambda>s' post. processPost B post s') s posts)"
proof (induction posts arbitrary: s)
  case Nil
  show ?case by (simp add: seenBy_refl)
next
  case (Cons p ps)
  have "seenBy s (processPost B p s)" by (rule processPost_seenBy)
  moreover have "seenBy (processPost B p s) (foldl (\<lambda>s' post. processPost B post s') (processPost B p s) ps)"
    by (rule Cons.IH)
  ultimately show ?case by (auto intro: seenBy_trans)
qed

lemma processExistingPosts_seenBy: "seenBy s (processExistingPosts B s)"
  by (simp add: processExistingPosts_def foldl_processPost_seenBy seenBy_refl split: sum.splits)

lemma startScraper_seenBy: "seenBy s (startScraper B s)"
proof -
  have "seenBy (s\<lparr>isActive := True\<rparr>) (processExistingPosts B (s\<lparr>isActive := True\<rparr>))"
    by (rule processExistingPosts_seenBy)
  then show ?thesis by (simp add: startScraper_def Let_def seenBy_def)
qed

lemma stopScraper_seen:
  "processed (stopScraper s) = processed s" "processedIds (stopScraper s) = processedIds s"
  by (simp_all add: stopScraper_def Let_def clearTimeout_def split: option.splits)

lemma debounced_seen:
  "processed (debouncedMutationHandler ms s) = processed s"
  "processedIds (debouncedMutationHandler ms s) = processedIds s"
  by (simp_all add: debouncedMutationHandler_def Let_def clearTimeout_def setTimeout_def
        split: option.splits)

lemma foldl_debounced_seen:
  "processed (foldl (\<lambda>s' ob. debouncedMutationHandler ms s') s obs) = processed s"
  "processedIds (foldl (\<lambda>s' ob. debouncedMutationHandler ms s') s obs) = processedIds s"
  by (induction obs arbitrary: s) (simp_all add: debounced_seen)

lemma handleMutations_seenBy: "seenBy s (handleMutations B ms s)"
proof (cases "collectPosts B (containerSelector s) ms")
  case (Inl e)
  then show ?thesis by (simp add: handleMutations_def seenBy_refl)
next
  case (Inr posts)
  have "seenBy s (foldl (\<lambda>s' post. processPost B post s') s posts)"
    by (rule foldl_processPost_seenBy)
  with Inr show ?thesis by (simp add: handleMutations_def Let_def seenBy_def)
qed

lemma handleMessage_seenBy: "seenBy s (snd (handleMessage B r s))"
proof -
  have a: "\<And>sel. seenBy s (startScraper B (s\<lparr>contentSelector := sel\<rparr>))"
    using startScraper_seenBy [of "s\<lparr>contentSelector := sel\<rparr>" for sel] by (simp add: seenBy_def)
  show ?thesis
    by (simp add: handleMessage_def a seenBy_refl downloadData_def downloadCSV_def cleanData_def
          Let_def seenBy_def [of s "stopScraper s"] stopScraper_seen split: option.splits)
       (simp add: seenBy_def)
qed

lemma step_seenBy: "seenBy s (step B ev s)"
proof (cases ev)
  case (Message r)
  then show ?thesis by (simp add: step_def handleMessage_seenBy)
next
  case (StateLoaded flag)
  then show ?thesis by (simp add: step_def startScraper_seenBy seenBy_refl)
next
  case (DomMutation doc ms)
  then show ?thesis by (simp add: step_def seenBy_def foldl_debounced_seen)
next
  case (TimePasses d)
  then show ?thesis by (simp add: step_def seenBy_def)
next
  case (TimerFires h)
  show ?thesis
  proof (cases "find (\<lambda>t. tid t = h \<and> due t \<le> now s) (timers s)")
    case None
    with TimerFires show ?thesis by (simp add: step_def seenBy_refl)
  next
    case (Some t)
    let ?s1 = "s\<lparr>timers := filter (\<lambda>t'. tid t' \<noteq> h) (timers s)\<rparr>"
    have "seenBy ?s1 (runCallback B (callback t) ?s1)"
      by (cases "callback t") (simp_all add: runCallback_def handleMutations_seenBy processPost_seenBy)
    with TimerFires Some show ?thesis by (simp add: step_def seenBy_def)
  qed
qed

lemma run_seenBy: "seenBy s (run B evs s)"
proof (induction evs arbitrary: s)
  case Nil
  show ?case by (simp add: run_def seenBy_refl)
next
  case (Cons ev evs)
  have "seenBy s (step B ev s)" by (rule step_seenBy)
  moreover have "seenBy (step B ev s) (run B evs (step B ev s))" by (rule Cons.IH)
  ultimately show ?case by (auto simp: run_def intro: seenBy_trans)
qed

lemma rejected_stays: "\<not> shouldProcess post s \<Longrightarrow> seenBy s s' \<Longrightarrow> \<not> shouldProcess post s'"
  by (auto simp: shouldProcess_def seenBy_def)

lemma after_delivery_rejected: "\<not> shouldProcess post (processPost B post s)"
proof (cases "shouldProcess post s")
  case True
  then show ?thesis using processPost_marks [of post s B] by (simp add: shouldProcess_def)
next
  case False
  then show ?thesis by (simp add: processPost_rejected)
qed

lemma later_delivery_rejected: "\<not> shouldProcess post (run B evs (processPost B post s))"
  using after_delivery_rejected run_seenBy by (rule rejected_stays)

lemma seen_identity_rejected:
  "ident post \<in> processed s \<Longrightarrow> seenBy s s' \<Longrightarrow> ident post' = ident post
   \<Longrightarrow> \<not> shouldProcess post' s'"
  by (auto simp: shouldProcess_def seenBy_def)

lemma accepted_then_rejected:
  assumes "shouldProcess post s" and "ident post' = ident post"
  shows "\<not> shouldProcess post' (run B evs (processPost B post s))"
proof -
  from assms(1) have "ident post \<in> processed (processPost B post s)"
    by (rule processPost_marks)
  then show ?thesis using run_seenBy assms(2) by (rule seen_identity_rejected)
qed

lemma same_id_rejected:
  assumes "ident post' = ident post" and "reflect post' ''id'' = reflect post ''id''"
  shows "\<not> shouldProcess post' (run B evs (processPost B post s))"
proof -
  have "\<not> shouldProcess post (run B evs (processPost B post s))"
    by (rule later_delivery_rejected)
  with assms show ?thesis by (simp add: shouldProcess_def)
qed

section \<open>The watcher: lemmas\<close>

lemma sameWatcher_refl: "sameWatcher s s"
  by (simp add: sameWatcher_def)

lemma sameWatcher_trans: "sameWatcher s s' \<Longrightarrow> sameWatcher s' s'' \<Longrightarrow> sameWatcher s s''"
  by (simp add: sameWatcher_def)

lemma retryLater_watcher:
  "debounceTimer (retryLater post s) = debounceTimer s"
  "observer (retryLater post s) = observer s"
  "observing (retryLater post s) = observing s"
  "isActive (retryLater post s) = isActive s"
  "resolved (retryLater post s) = resolved s"
  "filter isDebounce (timers (retryLater post s)) = filter isDebounce (timers s)"
  "contentSelector (retryLater post s) = contentSelector s"
  "containerSelector (retryLater post s) = containerSelector s"
  "nextObserver (retryLater post s) = nextObserver s"
  "document (retryLater post s) = document s"
  by (simp_all add: retryLater_def setTimeout_def isDebounce_def)

lemma processPost_sameWatcher: "sameWatcher s (processPost B post s)"
  by (simp add: sameWatcher_def processPost_def Let_def retryLater_watcher
        split: sum.splits option.splits)

lemma foldl_processPost_sameWatcher:
  "sameWatcher s (foldl (\<lambda>s' post. processPost B post s') s posts)"
proof (induction posts arbitrary: s)
  case Nil
  show ?case by (simp add: sameWatcher_refl)
next
  case (Cons p ps)
  from processPost_sameWatcher [of s B p] Cons.IH [of "processPost B p s"]
  show ?case by (auto intro: sameWatcher_trans)
qed

lemma processExistingPosts_sameWatcher: "sameWatcher s (processExistingPosts B s)"
  by (simp add: processExistingPosts_def foldl_processPost_sameWatcher sameWatcher_refl
        split: sum.splits)

lemma indexOf_lower: "- 1 \<le> indexOf str c"
  by (induction str) (simp_all add: Let_def)

lemma indexOf_absent: "indexOf str c = - 1 \<longleftrightarrow> c \<notin> set str"
proof (induction str)
  case Nil
  show ?case by simp
next
  case (Cons x xs)
  have "- 1 \<le> indexOf xs c" by (rule indexOf_lower)
  with Cons show ?case by (auto simp: Let_def)
qed

lemma indexOf_first: "indexOf str c = 0 \<longleftrightarrow> str \<noteq> [] \<and> hd str = c"
  by (cases str) (auto simp: Let_def)

lemma startScraper_active: "isActive s \<Longrightarrow> startScraper B s = s"
  by (simp add: startScraper_def)

lemma startScraper_config:
  "contentSelector (startScraper B s) = contentSelector s"
  "isActive (startScraper B s)"
  using processExistingPosts_sameWatcher [of "s\<lparr>isActive := True\<rparr>" B]
  by (simp_all add: startScraper_def Let_def sameWatcher_def)

lemma wellFormed_init: "wellFormed (init doc)"
  by (simp add: wellFormed_def init_def)

lemma wellFormed_filter:
  "wellFormed s \<longleftrightarrow>
     (\<forall>t \<in> set (filter isDebounce (timers s)). debounceTimer s = Some (tid t)) \<and>
     observing s = (case observer s of None \<Rightarrow> [] | Some ob \<Rightarrow> [ob]) \<and>
     (isActive s \<longleftrightarrow> observer s \<noteq> None) \<and>
     (\<not> isActive s \<longrightarrow> filter isDebounce (timers s) = [])"
  by (auto simp: wellFormed_def filter_empty_conv)

lemma sameWatcher_wellFormed: "sameWatcher s s' \<Longrightarrow> wellFormed s \<Longrightarrow> wellFormed s'"
  by (simp add: wellFormed_filter sameWatcher_def)

lemma startScraper_wellFormed: "wellFormed s \<Longrightarrow> wellFormed (startScraper B s)"
proof (cases "isActive s")
  case True
  assume "wellFormed s"
  with True show ?thesis by (simp add: startScraper_def)
next
  case False
  assume w: "wellFormed s"
  let ?s1 = "s\<lparr>isActive := True\<rparr>"
  have sw: "sameWatcher ?s1 (processExistingPosts B ?s1)"
    by (rule processExistingPosts_sameWatcher)
  then show ?thesis
    using w False by (simp add: startScraper_def Let_def sameWatcher_def wellFormed_filter)
qed

lemma stopScraper_wellFormed: "wellFormed s \<Longrightarrow> wellFormed (stopScraper s)"
  by (auto simp: stopScraper_def Let_def wellFormed_def clearTimeout_def split: option.splits)

lemma stopScraper_quiet: "wellFormed s \<Longrightarrow> quiet (stopScraper s)"
  by (auto simp: stopScraper_def Let_def wellFormed_def clearTimeout_def quiet_def
        filter_empty_conv split: option.splits)

lemma debounced_wellFormed:
  "wellFormed s \<and> isActive s
   \<Longrightarrow> wellFormed (debouncedMutationHandler ms s) \<and> isActive (debouncedMutationHandler ms s)"
  by (auto simp: debouncedMutationHandler_def Let_def wellFormed_def clearTimeout_def
        setTimeout_def isDebounce_def split: option.splits)

lemma debounced_pending:
  assumes "wellFormed s"
  shows "filter isDebounce (timers (debouncedMutationHandler ms s))
           = [Timer (nextTimer s) (now s + debounceDelay s) (HandleMutations ms)]"
proof (cases "debounceTimer s")
  case None
  with assms have "filter isDebounce (timers s) = []"
    by (auto simp: wellFormed_def filter_empty_conv)
  with None show ?thesis
    by (simp add: debouncedMutationHandler_def Let_def clearTimeout_def setTimeout_def
          isDebounce_def)
next
  case (Some h)
  with assms have "filter isDebounce (filter (\<lambda>t. tid t \<noteq> h) (timers s)) = []"
    by (auto simp: wellFormed_def filter_empty_conv)
  with Some show ?thesis
    by (simp add: debouncedMutationHandler_def Let_def clearTimeout_def setTimeout_def
          isDebounce_def)
qed

lemma foldl_debounced_wellFormed:
  "wellFormed s \<and> isActive s
   \<Longrightarrow> wellFormed (foldl (\<lambda>s' ob. debouncedMutationHandler ms s') s obs)"
proof (induction obs arbitrary: s)
  case Nil
  then show ?case by simp
next
  case (Cons ob obs)
  from Cons.prems have "wellFormed (debouncedMutationHandler ms s) \<and> isActive (debouncedMutationHandler ms s)"
    by (rule debounced_wellFormed)
  then show ?case using Cons.IH by simp
qed

lemma handleMutations_wellFormed: "wellFormed s \<Longrightarrow> wellFormed (handleMutations B ms s)"
proof (cases "collectPosts B (containerSelector s) ms")
  case (Inl e)
  assume "wellFormed s"
  with Inl show ?thesis by (simp add: handleMutations_def)
next
  case (Inr posts)
  assume w: "wellFormed s"
  let ?s1 = "foldl (\<lambda>s' post. processPost B post s') s posts"
  have "wellFormed ?s1"
    using foldl_processPost_sameWatcher w by (rule sameWatcher_wellFormed)
  then have "wellFormed (?s1\<lparr>resolved := resolved ?s1 @ [map ident posts]\<rparr>)"
    by (simp add: wellFormed_def)
  with Inr show ?thesis by (simp add: handleMutations_def Let_def)
qed

lemma handleMessage_wellFormed: "wellFormed s \<Longrightarrow> wellFormed (snd (handleMessage B r s))"
proof -
  assume w: "wellFormed s"
  have a: "\<And>sel. wellFormed (startScraper B (s\<lparr>contentSelector := sel\<rparr>))"
  proof -
    fix sel
    have "wellFormed (s\<lparr>contentSelector := sel\<rparr>)" using w by (simp add: wellFormed_def)
    then show "wellFormed (startScraper B (s\<lparr>contentSelector := sel\<rparr>))"
      by (rule startScraper_wellFormed)
  qed
  have b: "wellFormed (s\<lparr>collectedData := []\<rparr>)" using w by (simp add: wellFormed_def)
  have c: "\<And>x. wellFormed (s\<lparr>downloads := x\<rparr>)" using w by (simp add: wellFormed_def)
  show ?thesis
    by (simp add: handleMessage_def a b c w stopScraper_wellFormed downloadData_def
          downloadCSV_def cleanData_def Let_def split: option.splits)
qed

lemma step_wellFormed: "wellFormed s \<Longrightarrow> wellFormed (step B ev s)"
proof (cases ev)
  case (Message r)
  assume "wellFormed s"
  with Message show ?thesis by (simp add: step_def handleMessage_wellFormed)
next
  case (StateLoaded flag)
  assume "wellFormed s"
  with StateLoaded show ?thesis by (simp add: step_def startScraper_wellFormed)
next
  case (DomMutation doc ms)
  assume w: "wellFormed s"
  then have w1: "wellFormed (s\<lparr>document := doc\<rparr>)" by (simp add: wellFormed_def)
  have "wellFormed (foldl (\<lambda>s' ob. debouncedMutationHandler ms s') (s\<lparr>document := doc\<rparr>) (observing s))"
  proof (cases "isActive s")
    case True
    with w1 show ?thesis by (simp add: foldl_debounced_wellFormed)
  next
    case False
    with w have "observing s = []" by (simp add: wellFormed_def)
    with w1 show ?thesis by simp
  qed
  with DomMutation show ?thesis by (simp add: step_def)
next
  case (TimePasses d)
  assume "wellFormed s"
  with TimePasses show ?thesis by (simp add: step_def wellFormed_def)
next
  case (TimerFires h)
  assume w: "wellFormed s"
  show ?thesis
  proof (cases "find (\<lambda>t. tid t = h \<and> due t \<le> now s) (timers s)")
    case None
    with TimerFires w show ?thesis by (simp add: step_def)
  next
    case (Some t)
    let ?s1 = "s\<lparr>timers := filter (\<lambda>t'. tid t' \<noteq> h) (timers s)\<rparr>"
    have w1: "wellFormed ?s1" using w by (simp add: wellFormed_def)
    have "wellFormed (runCallback B (callback t) ?s1)"
    proof (cases "callback t")
      case (HandleMutations ms)
      with w1 show ?thesis by (simp add: runCallback_def handleMutations_wellFormed)
    next
      case (ProcessPost p)
      have "wellFormed (processPost B p ?s1)"
        using processPost_sameWatcher w1 by (rule sameWatcher_wellFormed)
      with ProcessPost show ?thesis by (simp add: runCallback_def)
    qed
    with TimerFires Some show ?thesis by (simp add: step_def)
  qed
qed

lemma run_wellFormed: "wellFormed s \<Longrightarrow> wellFormed (run B evs s)"
  by (induction evs arbitrary: s) (simp_all add: run_def step_wellFormed)

lemma sameWatcher_quiet: "sameWatcher s s' \<Longrightarrow> quiet s \<Longrightarrow> quiet s' \<and> resolved s' = resolved s"
  by (simp add: sameWatcher_def quiet_def)

lemma handleMessage_quiet:
  "quiet s \<Longrightarrow> action r \<noteq> ''startScraper''
   \<Longrightarrow> quiet (snd (handleMessage B r s)) \<and> resolved (snd (handleMessage B r s)) = resolved s"
  by (simp add: handleMessage_def stopScraper_def downloadData_def downloadCSV_def cleanData_def
        Let_def quiet_def)

lemma step_quiet:
  assumes q: "quiet s" and n: "\<not> startEvent ev"
  shows "quiet (step B ev s) \<and> resolved (step B ev s) = resolved s"
proof (cases ev)
  case (Message r)
  with n have "action r \<noteq> ''startScraper''" by (simp add: startEvent_def)
  with q Message show ?thesis by (simp add: step_def handleMessage_quiet)
next
  case (StateLoaded flag)
  with q n show ?thesis by (simp add: step_def startEvent_def)
next
  case (DomMutation doc ms)
  with q show ?thesis by (simp add: step_def quiet_def)
next
  case (TimePasses d)
  with q show ?thesis by (simp add: step_def quiet_def)
next
  case (TimerFires h)
  show ?thesis
  proof (cases "find (\<lambda>t. tid t = h \<and> due t \<le> now s) (timers s)")
    case None
    with TimerFires q show ?thesis by (simp add: step_def)
  next
    case (Some t)
    let ?s1 = "s\<lparr>timers := filter (\<lambda>t'. tid t' \<noteq> h) (timers s)\<rparr>"
    from Some have "t \<in> set (timers s)" by (auto simp: find_Some_iff)
    with q have nd: "\<not> isDebounce t" by (auto simp: quiet_def filter_empty_conv)
    have "filter isDebounce (filter (\<lambda>t'. tid t' \<noteq> h) (timers s)) =
          filter (\<lambda>t'. tid t' \<noteq> h) (filter isDebounce (timers s))"
      by (induction "timers s") (auto simp: filter_filter conj_commute)
    with q have q1: "quiet ?s1" by (simp add: quiet_def)
    from nd obtain p where cb: "callback t = ProcessPost p"
      by (cases "callback t") (simp_all add: isDebounce_def)
    have "quiet (processPost B p ?s1) \<and> resolved (processPost B p ?s1) = resolved ?s1"
      using processPost_sameWatcher q1 by (rule sameWatcher_quiet)
    with TimerFires Some cb show ?thesis by (simp add: step_def runCallback_def)
  qed
qed

lemma run_quiet:
  "quiet s \<Longrightarrow> \<forall>ev \<in> set evs. \<not> startEvent ev
   \<Longrightarrow> quiet (run B evs s) \<and> resolved (run B evs s) = resolved s"
proof (induction evs arbitrary: s)
  case Nil
  then show ?case by (simp add: run_def)
next
  case (Cons ev evs)
  from Cons.prems have 1: "quiet (step B ev s) \<and> resolved (step B ev s) = resolved s"
    by (simp add: step_quiet)
  with Cons.IH [of "step B ev s"] Cons.prems
  have "quiet (run B evs (step B ev s)) \<and> resolved (run B evs (step B ev s)) = resolved (step B ev s)"
    by simp
  with 1 show ?case by (simp add: run_def)
qed

section \<open>Evaluation on the small page\<close>

lemmas demo_defs =
  run_def twoBatches_def step_def handleMessage_def startRequest_def init_def
  startScraper_def stopScraper_def processExistingPosts_def querySelectorAll_def page_def
  article_def demoBrowser_def debouncedMutationHandler_def clearTimeout_def setTimeout_def
  runCallback_def handleMutations_def collectPosts_def addNode_def matches_def
  getAttribute_def setAdd_def processPost_def reflect_def markerSelector_def
  querySelector_def extractPostData_def retryLater_def twinPage_def afterFirst_def repost_def
  noDuplicateIds_def shouldProcess_def isDebounce_def startEvent_def asciiTrim_def isSpace_def
  urlProperty_def tabPage_def seenIdRepost_def
  Let_def

section \<open>The debounced watcher\<close>

text \<open>
  C1. The claim: when batches of mutations arrive less than \<^verbatim>\<open>debounceDelay\<close> apart, the
  handler runs once after the silence, with the union of the matching nodes of all the
  batches. The program runs the handler once, but with the last batch only: each call of
  \<^verbatim>\<open>debouncedMutationHandler\<close> clears the pending timer, and the new timer's closure holds
  the \<^verbatim>\<open>mutations\<close> of that call alone. On the page where post 3 arrives at 0 ms and post
  4 at 50 ms, the one run of \<^verbatim>\<open>handleMutations\<close> at 150 ms resolves post 4 only; post 3
  is never marked nor collected, and no timer is left that could bring it back. The
  nodes of the two batches taken together are posts 3 and 4. This is no accident of the
  page: by lemma \<open>debounced_pending\<close>, after any delivery the one pending debounce timer
  holds the batch of that delivery and nothing else.
\<close>

theorem debounce_keeps_last_batch_only:
  \<open>resolved (run demoBrowser twoBatches (init (page []))) = [[4]] \<and>
   map postId (collectedData (run demoBrowser twoBatches (init (page [])))) = [Some ''d''] \<and>
   3 \<notin> processed (run demoBrowser twoBatches (init (page []))) \<and>
   timers (run demoBrowser twoBatches (init (page []))) = [] \<and>
   collectPosts demoBrowser ''[role="article"]''
     [Mutation [article 3 [(''id'', ''c'')] ''third'' []],
      Mutation [article 4 [(''id'', ''d'')] ''fourth'' []]]
     = Inr [article 3 [(''id'', ''c'')] ''third'' [], article 4 [(''id'', ''d'')] ''fourth'' []]\<close>
  by (simp add: demo_defs)

section \<open>The collected records\<close>

text \<open>
  C2. The claim: the store never holds two records with the same non-empty identifier,
  also when the identifier comes from \<^verbatim>\<open>data-id\<close>. The program takes the record's
  identifier from \<^verbatim>\<open>post.id || post.getAttribute('data-id')\<close>, but it dedups on
  \<^verbatim>\<open>post.id\<close> alone. Started on a page with two elements that carry the same
  \<^verbatim>\<open>data-id\<close> and no \<^verbatim>\<open>id\<close>, it collects both, under the same identifier.
\<close>

theorem same_data_id_collected_twice:
  "map postId (collectedData (run demoBrowser [Message (startRequest ''text'')] (init twinPage)))
     = [Some ''urn:li:1'', Some ''urn:li:1''] \<and>
   \<not> noDuplicateIds
        (collectedData (run demoBrowser [Message (startRequest ''text'')] (init twinPage)))"
  by (simp add: demo_defs)

section \<open>The dedup decision\<close>

text \<open>
  C3, as stated: a node delivered twice is accepted exactly once, at its first delivery.
  This fails for a node that has never been seen but whose \<^verbatim>\<open>id\<close> has: after a post with
  \<^verbatim>\<open>id="x"\<close> has been processed, another element with \<^verbatim>\<open>id="x"\<close> is rejected at its
  first delivery and at its second, so it is accepted zero times.
\<close>

theorem dedup_exactly_once_counterexample:
  "ident (article 6 [(''id'', ''x'')] ''f'' []) \<notin> processed afterFirst \<and>
   \<not> shouldProcess (article 6 [(''id'', ''x'')] ''f'' []) afterFirst \<and>
   processPost demoBrowser (article 6 [(''id'', ''x'')] ''f'' []) afterFirst = afterFirst \<and>
   \<not> shouldProcess (article 6 [(''id'', ''x'')] ''f'' [])
       (processPost demoBrowser (article 6 [(''id'', ''x'')] ''f'' []) afterFirst)"
proof -
  have 1: "ident (article 6 [(''id'', ''x'')] ''f'' []) \<notin> processed afterFirst"
    by (simp add: demo_defs)
  have 2: "\<not> shouldProcess (article 6 [(''id'', ''x'')] ''f'' []) afterFirst"
    by (simp add: demo_defs)
  from 2 have 3:
    "processPost demoBrowser (article 6 [(''id'', ''x'')] ''f'' []) afterFirst = afterFirst"
    by (rule processPost_rejected)
  from 1 2 3 show ?thesis by simp
qed

text \<open>
  C3, amended: a node is accepted at most once. A delivery is processed (the state
  changes) exactly when the decision accepts it; a node whose identity has been seen is
  rejected whatever its \<^verbatim>\<open>id\<close>; a delivery is accepted exactly when the node's identity
  is new and its \<^verbatim>\<open>id\<close>, as it is then, is empty or new. After a delivery that was
  accepted, every later delivery of a node with the same identity is rejected and changes
  nothing, whatever its attributes have become and whatever events happen in between.
  After any delivery, accepted or not, every later delivery of the node with the same
  \<^verbatim>\<open>id\<close> is rejected and changes nothing, whatever events happen in between. Here \<open>post\<close>
  is the node as first delivered and \<open>post'\<close> the node as delivered later.
\<close>

theorem dedup_at_most_once:
  "(shouldProcess post s \<longleftrightarrow> processPost B post s \<noteq> s) \<and>
   (ident post \<in> processed s \<longrightarrow> \<not> shouldProcess post s) \<and>
   (shouldProcess post s \<longleftrightarrow>
      ident post \<notin> processed s \<and>
      (reflect post ''id'' = [] \<or> reflect post ''id'' \<notin> processedIds s)) \<and>
   (shouldProcess post s \<and> ident post' = ident post \<longrightarrow>
      \<not> shouldProcess post' (run B evs (processPost B post s)) \<and>
      processPost B post' (run B evs (processPost B post s)) = run B evs (processPost B post s)) \<and>
   (ident post' = ident post \<and> reflect post' ''id'' = reflect post ''id'' \<longrightarrow>
      \<not> shouldProcess post' (run B evs (processPost B post s)) \<and>
      processPost B post' (run B evs (processPost B post s)) = run B evs (processPost B post s))"
proof -
  have "shouldProcess post s \<Longrightarrow> processPost B post s \<noteq> s"
  proof
    assume a: "shouldProcess post s" and b: "processPost B post s = s"
    from a have "ident post \<in> processed (processPost B post s)" by (rule processPost_marks)
    with b a show False by (simp add: shouldProcess_def)
  qed
  then have 1: "shouldProcess post s \<longleftrightarrow> processPost B post s \<noteq> s"
    using processPost_rejected [of post s B] by blast
  have 2: "ident post \<in> processed s \<longrightarrow> \<not> shouldProcess post s"
    by (simp add: shouldProcess_def)
  have 3: "shouldProcess post s \<longleftrightarrow>
      ident post \<notin> processed s \<and>
      (reflect post ''id'' = [] \<or> reflect post ''id'' \<notin> processedIds s)"
    by (auto simp: shouldProcess_def)
  have 4: "shouldProcess post s \<and> ident post' = ident post \<longrightarrow>
      \<not> shouldProcess post' (run B evs (processPost B post s)) \<and>
      processPost B post' (run B evs (processPost B post s)) = run B evs (processPost B post s)"
    using accepted_then_rejected [of post s post' B evs]
          processPost_rejected [of post' "run B evs (processPost B post s)" B]
    by blast
  have 5: "ident post' = ident post \<and> reflect post' ''id'' = reflect post ''id'' \<longrightarrow>
      \<not> shouldProcess post' (run B evs (processPost B post s)) \<and>
      processPost B post' (run B evs (processPost B post s)) = run B evs (processPost B post s)"
    using same_id_rejected [of post' post B evs s]
          processPost_rejected [of post' "run B evs (processPost B post s)" B]
    by blast
  from 1 2 3 4 5 show ?thesis by blast
qed

text \<open>
  The amended C3 on the small page. A new post with \<^verbatim>\<open>id="x"\<close> is accepted on the empty
  index and its delivery changes the state; 10 ms later the same element, its \<^verbatim>\<open>id\<close>
  changed to \<^verbatim>\<open>z\<close>, is rejected. Another element with \<^verbatim>\<open>id="x"\<close> is rejected at its
  first delivery, and again later with the same \<^verbatim>\<open>id\<close>.
\<close>

theorem dedup_at_most_once_witness:
  "shouldProcess (article 5 [(''id'', ''x'')] ''e'' []) (init (page [])) \<and>
   processPost demoBrowser (article 5 [(''id'', ''x'')] ''e'' []) (init (page [])) \<noteq> init (page []) \<and>
   ident (article 5 [(''id'', ''z'')] ''changed'' []) = ident (article 5 [(''id'', ''x'')] ''e'' []) \<and>
   \<not> shouldProcess (article 5 [(''id'', ''z'')] ''changed'' [])
       (run demoBrowser [TimePasses 10] afterFirst) \<and>
   processPost demoBrowser (article 5 [(''id'', ''z'')] ''changed'' [])
       (run demoBrowser [TimePasses 10] afterFirst) = run demoBrowser [TimePasses 10] afterFirst \<and>
   ident (article 5 [(''id'', ''x'')] ''e'' []) \<in> processed afterFirst \<and>
   \<not> shouldProcess (article 5 [(''id'', ''x'')] ''e'' []) afterFirst \<and>
   \<not> shouldProcess (article 6 [(''id'', ''x'')] ''f'' []) afterFirst \<and>
   reflect (article 6 [(''id'', ''x'')] ''later'' []) ''id''
     = reflect (article 6 [(''id'', ''x'')] ''f'' []) ''id'' \<and>
   \<not> shouldProcess (article 6 [(''id'', ''x'')] ''later'' [])
       (run demoBrowser [TimePasses 10]
          (processPost demoBrowser (article 6 [(''id'', ''x'')] ''f'' []) afterFirst))"
proof -
  have a: "shouldProcess (article 5 [(''id'', ''x'')] ''e'' []) (init (page []))"
    by (simp add: demo_defs)
  have b: "ident (article 5 [(''id'', ''z'')] ''changed'' []) = ident (article 5 [(''id'', ''x'')] ''e'' [])"
    by (simp add: article_def)
  have c: "ident (article 5 [(''id'', ''x'')] ''e'' []) \<in> processed afterFirst"
    by (simp add: demo_defs)
  have d: "\<not> shouldProcess (article 6 [(''id'', ''x'')] ''f'' []) afterFirst"
    by (simp add: demo_defs)
  have e: "ident (article 6 [(''id'', ''x'')] ''later'' []) = ident (article 6 [(''id'', ''x'')] ''f'' [])"
    by (simp add: article_def)
  have f: "reflect (article 6 [(''id'', ''x'')] ''later'' []) ''id''
     = reflect (article 6 [(''id'', ''x'')] ''f'' []) ''id''"
    by (simp add: article_def reflect_def getAttribute_def)
  note t1 = dedup_at_most_once [of "article 5 [(''id'', ''x'')] ''e'' []" "init (page [])" demoBrowser
      "article 5 [(''id'', ''z'')] ''changed'' []" "[TimePasses 10]"]
  note t2 = dedup_at_most_once [of "article 5 [(''id'', ''x'')] ''e'' []" afterFirst demoBrowser
      "article 5 [(''id'', ''x'')] ''e'' []" "[]"]
  note t3 = dedup_at_most_once [of "article 6 [(''id'', ''x'')] ''f'' []" afterFirst demoBrowser
      "article 6 [(''id'', ''x'')] ''later'' []" "[TimePasses 10]"]
  from t1 a have 1: "processPost demoBrowser (article 5 [(''id'', ''x'')] ''e'' []) (init (page [])) \<noteq> init (page [])"
    by blast
  from t1 a b have 2: "\<not> shouldProcess (article 5 [(''id'', ''z'')] ''changed'' [])
       (run demoBrowser [TimePasses 10] (processPost demoBrowser (article 5 [(''id'', ''x'')] ''e'' []) (init (page [])))) \<and>
     processPost demoBrowser (article 5 [(''id'', ''z'')] ''changed'' [])
       (run demoBrowser [TimePasses 10] (processPost demoBrowser (article 5 [(''id'', ''x'')] ''e'' []) (init (page []))))
      = run demoBrowser [TimePasses 10] (processPost demoBrowser (article 5 [(''id'', ''x'')] ''e'' []) (init (page [])))"
    by blast
  from t2 c have 3: "\<not> shouldProcess (article 5 [(''id'', ''x'')] ''e'' []) afterFirst"
    by blast
  from t3 e f have 4: "\<not> shouldProcess (article 6 [(''id'', ''x'')] ''later'' [])
       (run demoBrowser [TimePasses 10]
          (processPost demoBrowser (article 6 [(''id'', ''x'')] ''f'' []) afterFirst))"
    by blast
  from a b c d f 1 2 3 4 show ?thesis by (simp add: afterFirst_def)
qed

text \<open>
  C5, as stated: every delivered node that holds the repost marker is recorded as seen,
  so that a later delivery of the same node is rejected. This fails for a repost whose
  \<^verbatim>\<open>id\<close> has been seen on another node: line 179 returns before line 182 marks
  anything. After a post with \<^verbatim>\<open>id="x"\<close> has been processed, a repost element with
  \<^verbatim>\<open>id="x"\<close> is delivered: the state is unchanged and the element's identity is not in
  the index. When the same element is delivered again with its \<^verbatim>\<open>id\<close> changed to \<^verbatim>\<open>y\<close>,
  it is accepted and processed.
\<close>

theorem repost_recorded_counterexample:
  "querySelector demoBrowser markerSelector (seenIdRepost ''x'')
     = Inr (Some (Node 8 ELEMENT_NODE ''img'' [(''class'', ''update-components-header__image'')] [] [])) \<and>
   processPost demoBrowser (seenIdRepost ''x'') afterFirst = afterFirst \<and>
   ident (seenIdRepost ''x'') \<notin> processed (processPost demoBrowser (seenIdRepost ''x'') afterFirst) \<and>
   ident (seenIdRepost ''y'') = ident (seenIdRepost ''x'') \<and>
   shouldProcess (seenIdRepost ''y'') (processPost demoBrowser (seenIdRepost ''x'') afterFirst) \<and>
   ident (seenIdRepost ''y'') \<in> processed
     (processPost demoBrowser (seenIdRepost ''y'')
        (processPost demoBrowser (seenIdRepost ''x'') afterFirst))"
proof -
  have 1: "querySelector demoBrowser markerSelector (seenIdRepost ''x'')
     = Inr (Some (Node 8 ELEMENT_NODE ''img'' [(''class'', ''update-components-header__image'')] [] []))"
    by (simp add: demo_defs seenIdRepost_def)
  have "\<not> shouldProcess (seenIdRepost ''x'') afterFirst"
    by (simp add: demo_defs seenIdRepost_def)
  then have 2: "processPost demoBrowser (seenIdRepost ''x'') afterFirst = afterFirst"
    by (rule processPost_rejected)
  have 3: "ident (seenIdRepost ''x'') \<notin> processed afterFirst"
    by (simp add: demo_defs seenIdRepost_def)
  have 4: "ident (seenIdRepost ''y'') = ident (seenIdRepost ''x'')"
    by (simp add: seenIdRepost_def article_def)
  have 5: "shouldProcess (seenIdRepost ''y'') afterFirst"
    by (simp add: demo_defs seenIdRepost_def)
  then have 6: "ident (seenIdRepost ''y'') \<in> processed (processPost demoBrowser (seenIdRepost ''y'') afterFirst)"
    by (rule processPost_marks)
  from 1 2 3 4 5 6 show ?thesis by simp
qed

text \<open>
  C5, amended: a delivered node that holds the repost marker adds no record. If the
  decision accepts the delivery, the node's identity is marked as seen before the marker
  is looked for, and every later delivery of a node with that identity is rejected and
  changes nothing, whatever its attributes have become and whatever events happen in
  between. If the decision rejects the delivery, nothing at all changes. In both cases
  every later delivery of the node with the same \<^verbatim>\<open>id\<close> is rejected and changes nothing.
  Here \<open>post\<close> is the node as first delivered and \<open>post'\<close> the node as delivered later.
\<close>

theorem repost_skipped:
  assumes "querySelector B markerSelector post = Inr (Some m)"
  shows "collectedData (processPost B post s) = collectedData s \<and>
         (shouldProcess post s \<longrightarrow>
            ident post \<in> processed (processPost B post s) \<and>
            (ident post' = ident post \<longrightarrow>
               \<not> shouldProcess post' (run B evs (processPost B post s)) \<and>
               processPost B post' (run B evs (processPost B post s))
                 = run B evs (processPost B post s))) \<and>
         (\<not> shouldProcess post s \<longrightarrow> processPost B post s = s) \<and>
         (ident post' = ident post \<and> reflect post' ''id'' = reflect post ''id'' \<longrightarrow>
            \<not> shouldProcess post' (run B evs (processPost B post s)) \<and>
            processPost B post' (run B evs (processPost B post s))
              = run B evs (processPost B post s))"
proof -
  have 1: "collectedData (processPost B post s) = collectedData s"
    using assms by (simp add: processPost_def Let_def)
  have 2: "shouldProcess post s \<longrightarrow>
            ident post \<in> processed (processPost B post s) \<and>
            (ident post' = ident post \<longrightarrow>
               \<not> shouldProcess post' (run B evs (processPost B post s)) \<and>
               processPost B post' (run B evs (processPost B post s))
                 = run B evs (processPost B post s))"
    using processPost_marks [of post s B] accepted_then_rejected [of post s post' B evs]
          processPost_rejected [of post' "run B evs (processPost B post s)" B]
    by blast
  have 3: "\<not> shouldProcess post s \<longrightarrow> processPost B post s = s"
    using processPost_rejected [of post s B] by blast
  have 4: "ident post' = ident post \<and> reflect post' ''id'' = reflect post ''id'' \<longrightarrow>
            \<not> shouldProcess post' (run B evs (processPost B post s)) \<and>
            processPost B post' (run B evs (processPost B post s))
              = run B evs (processPost B post s)"
    using same_id_rejected [of post' post B evs s]
          processPost_rejected [of post' "run B evs (processPost B post s)" B]
    by blast
  from 1 2 3 4 show ?thesis by blast
qed

text \<open>
  The amended C5 on the small page. On a started scraper the post with the marker image
  is accepted, leaves the store empty and is marked; 10 ms later the same element, now
  with an \<^verbatim>\<open>id\<close>, is rejected. After a post with \<^verbatim>\<open>id="x"\<close>, a repost with \<^verbatim>\<open>id="x"\<close> is
  rejected, changes nothing, and is rejected again later.
\<close>

theorem repost_skipped_witness:
  "querySelector demoBrowser markerSelector repost
     = Inr (Some (Node 8 ELEMENT_NODE ''img'' [(''class'', ''update-components-header__image'')] [] [])) \<and>
   shouldProcess repost (run demoBrowser [Message (startRequest ''text'')] (init (page []))) \<and>
   collectedData (processPost demoBrowser repost
       (run demoBrowser [Message (startRequest ''text'')] (init (page [])))) = [] \<and>
   ident repost \<in> processed (processPost demoBrowser repost
       (run demoBrowser [Message (startRequest ''text'')] (init (page [])))) \<and>
   ident (article 7 [(''id'', ''new'')] ''edited'' []) = ident repost \<and>
   \<not> shouldProcess (article 7 [(''id'', ''new'')] ''edited'' [])
       (run demoBrowser [TimePasses 10] (processPost demoBrowser repost
          (run demoBrowser [Message (startRequest ''text'')] (init (page []))))) \<and>
   \<not> shouldProcess (seenIdRepost ''x'') afterFirst \<and>
   processPost demoBrowser (seenIdRepost ''x'') afterFirst = afterFirst \<and>
   \<not> shouldProcess (seenIdRepost ''x'')
       (run demoBrowser [TimePasses 10] (processPost demoBrowser (seenIdRepost ''x'') afterFirst))"
proof -
  let ?s = "run demoBrowser [Message (startRequest ''text'')] (init (page []))"
  have a: "querySelector demoBrowser markerSelector repost
     = Inr (Some (Node 8 ELEMENT_NODE ''img'' [(''class'', ''update-components-header__image'')] [] []))"
    by (simp add: demo_defs)
  have a': "querySelector demoBrowser markerSelector (seenIdRepost ''x'')
     = Inr (Some (Node 8 ELEMENT_NODE ''img'' [(''class'', ''update-components-header__image'')] [] []))"
    by (simp add: demo_defs seenIdRepost_def)
  have b: "shouldProcess repost ?s"
    by (simp add: demo_defs)
  have c: "collectedData ?s = []"
    by (simp add: demo_defs)
  have d: "ident (article 7 [(''id'', ''new'')] ''edited'' []) = ident repost"
    by (simp add: repost_def article_def)
  have e: "\<not> shouldProcess (seenIdRepost ''x'') afterFirst"
    by (simp add: demo_defs seenIdRepost_def)
  note t1 = repost_skipped [OF a, of ?s "article 7 [(''id'', ''new'')] ''edited'' []" "[TimePasses 10]"]
  note t2 = repost_skipped [OF a', of afterFirst "seenIdRepost ''x''" "[TimePasses 10]"]
  from t1 c have 1: "collectedData (processPost demoBrowser repost ?s) = []"
    by simp
  from t1 b d have 2: "ident repost \<in> processed (processPost demoBrowser repost ?s) \<and>
     \<not> shouldProcess (article 7 [(''id'', ''new'')] ''edited'' [])
       (run demoBrowser [TimePasses 10] (processPost demoBrowser repost ?s))"
    by blast
  from t2 e have 3: "processPost demoBrowser (seenIdRepost ''x'') afterFirst = afterFirst \<and>
     \<not> shouldProcess (seenIdRepost ''x'')
       (run demoBrowser [TimePasses 10] (processPost demoBrowser (seenIdRepost ''x'') afterFirst))"
    by blast
  from a b d e 1 2 3 show ?thesis by blast
qed

section \<open>The export\<close>

text \<open>
  C4, as stated: a field is quoted exactly when it contains the field separator, a double
  quote or a line break. The export separates fields with a tab, but \<^verbatim>\<open>escapeCSV\<close> tests
  for a comma: the field \<^verbatim>\<open>a,b\<close> holds no tab, no quote and no line break, and yet it is
  wrapped in quotes.
\<close>

theorem escapeCSV_separator_counterexample:
  "escapeCSV (Str ''a,b'') = [dquote] @ ''a,b'' @ [dquote] \<and>
   spec_encodeField tab ''a,b'' = ''a,b'' \<and>
   escapeCSV (Str ''a,b'') \<noteq> spec_encodeField tab ''a,b''"
  by (simp add: escapeCSV_def spec_encodeField_def str_includes_def replaceAll_def)

text \<open>
  C4, amended: \<^verbatim>\<open>null\<close> and \<^verbatim>\<open>undefined\<close> encode as the empty string; a string that
  contains a comma, a double quote, a line feed or a carriage return encodes as itself
  wrapped in double quotes with each double quote inside doubled; a string that contains
  none of these and no tab encodes as itself; and \<^verbatim>\<open>A,B"C\<close> encodes as \<^verbatim>\<open>"A,B""C"\<close>.
\<close>

theorem escapeCSV_quoting:
  "escapeCSV Null = [] \<and> escapeCSV Undefined = [] \<and>
   (CHR '','' \<in> set str \<or> dquote \<in> set str \<or> lf \<in> set str \<or> cr \<in> set str
      \<longrightarrow> escapeCSV (Str str) = [dquote] @ doubleQuotes str @ [dquote]) \<and>
   (CHR '','' \<notin> set str \<and> dquote \<notin> set str \<and> lf \<notin> set str \<and> cr \<notin> set str \<and>
    tab \<notin> set str
      \<longrightarrow> escapeCSV (Str str) = str) \<and>
   escapeCSV (Str (''A,B'' @ [dquote] @ ''C''))
     = [dquote] @ ''A,B'' @ [dquote, dquote] @ ''C'' @ [dquote]"
  by (simp add: escapeCSV_def str_includes_def replaceAll_doubleQuotes)

text \<open>
  The amended C4 on three fields: one with a comma, one with double quotes, one plain.
\<close>

theorem escapeCSV_quoting_witness:
  "CHR '','' \<in> set ''x,y'' \<and> escapeCSV (Str ''x,y'') = [dquote] @ ''x,y'' @ [dquote] \<and>
   dquote \<in> set (''say '' @ [dquote] @ ''hi'' @ [dquote]) \<and>
   escapeCSV (Str (''say '' @ [dquote] @ ''hi'' @ [dquote]))
     = [dquote] @ ''say '' @ [dquote, dquote] @ ''hi'' @ [dquote, dquote] @ [dquote] \<and>
   CHR '','' \<notin> set ''plain'' \<and> dquote \<notin> set ''plain'' \<and> lf \<notin> set ''plain'' \<and>
   cr \<notin> set ''plain'' \<and> tab \<notin> set ''plain'' \<and> escapeCSV (Str ''plain'') = ''plain''"
  using escapeCSV_quoting [of "''x,y''"]
        escapeCSV_quoting [of "''say '' @ [dquote] @ ''hi'' @ [dquote]"]
        escapeCSV_quoting [of "''plain''"]
  by simp

text \<open>
  What holds of every export. Encoding no record gives the sentinel
  \<^verbatim>\<open>No data to export\<close>, which is not the header line. Encoding a non-empty list gives the
  header line and then, for each record in order, one line made of its seven fields
  (timestamp, id, text, number of links, link URLs joined by \<^verbatim>\<open>; \<close>, number of images,
  image URLs joined by \<^verbatim>\<open>; \<close>), each encoded by \<^verbatim>\<open>escapeCSV\<close>, joined by tabs and ended by
  a line feed. A reader that takes a line feed inside quotes as part of the field counts
  one line for the header and one for each record.
\<close>

lemma convertToCSV_lines:
  "convertToCSV [] = ''No data to export'' \<and>
   convertToCSV [] \<noteq> join [tab] headers @ [lf] \<and>
   (data \<noteq> [] \<longrightarrow>
      convertToCSV data =
        join [tab] headers @ [lf] @ concat (map (\<lambda>p. join [tab] (row p) @ [lf]) data) \<and>
      countRecords False (convertToCSV data) = 1 + length data) \<and>
   join [tab] headers @ [lf] =
     ''Timestamp'' @ [tab] @ ''Post ID'' @ [tab] @ ''Post Text'' @ [tab] @ ''Links Count'' @ [tab]
       @ ''Links URLs'' @ [tab] @ ''Images Count'' @ [tab] @ ''Image URLs'' @ [lf] \<and>
   row p = map escapeCSV
     [Str (timestamp p), (case postId p of None \<Rightarrow> Null | Some i \<Rightarrow> Str i), Str (postText p),
      Num (length (links p)), Str (join ''; '' (map url (links p))),
      Num (length (images p)), Str (join ''; '' (map src (images p)))]"
proof -
  have 1: "convertToCSV [] = ''No data to export''"
    by (simp add: convertToCSV_def)
  have 2: "convertToCSV [] \<noteq> join [tab] headers @ [lf]"
    by (simp add: convertToCSV_def headers_def)
  have 3: "data \<noteq> [] \<longrightarrow>
      convertToCSV data =
        join [tab] headers @ [lf] @ concat (map (\<lambda>p. join [tab] (row p) @ [lf]) data) \<and>
      countRecords False (convertToCSV data) = 1 + length data"
    using foldl_lines [of "\<lambda>p. join [tab] (row p) @ [lf]" "join [tab] headers @ [lf]" data]
    by (simp add: convertToCSV_def countRecords_append quoteState_append header_line
          lines_countRecords)
  have 4: "join [tab] headers @ [lf] =
     ''Timestamp'' @ [tab] @ ''Post ID'' @ [tab] @ ''Post Text'' @ [tab] @ ''Links Count'' @ [tab]
       @ ''Links URLs'' @ [tab] @ ''Images Count'' @ [tab] @ ''Image URLs'' @ [lf]"
    by (simp add: headers_def)
  have 5: "row p = map escapeCSV
     [Str (timestamp p), (case postId p of None \<Rightarrow> Null | Some i \<Rightarrow> Str i), Str (postText p),
      Num (length (links p)), Str (join ''; '' (map url (links p))),
      Num (length (images p)), Str (join ''; '' (map src (images p)))]"
    by (simp add: row_def)
  from 1 2 3 4 5 show ?thesis by blast
qed

text \<open>
  On one record whose text holds a line feed: the document is the header line and one
  quoted data line, two lines for the reader.
\<close>

lemma convertToCSV_lines_example:
  "[\<lparr>timestamp = ''T+5'', postId = None, postText = ''a'' @ [lf] @ ''b'',
     links = [\<lparr>url = ''u'', linkText = ''l''\<rparr>], images = [], metadata = []\<rparr>] \<noteq> [] \<and>
   countRecords False
     (convertToCSV [\<lparr>timestamp = ''T+5'', postId = None, postText = ''a'' @ [lf] @ ''b'',
        links = [\<lparr>url = ''u'', linkText = ''l''\<rparr>], images = [], metadata = []\<rparr>]) = 2 \<and>
   convertToCSV [\<lparr>timestamp = ''T+5'', postId = None, postText = ''a'' @ [lf] @ ''b'',
        links = [\<lparr>url = ''u'', linkText = ''l''\<rparr>], images = [], metadata = []\<rparr>]
     = ''Timestamp'' @ [tab] @ ''Post ID'' @ [tab] @ ''Post Text'' @ [tab] @ ''Links Count'' @ [tab]
       @ ''Links URLs'' @ [tab] @ ''Images Count'' @ [tab] @ ''Image URLs'' @ [lf]
       @ ''T+5'' @ [tab] @ [tab] @ [dquote] @ ''a'' @ [lf] @ ''b'' @ [dquote] @ [tab] @ ''1''
       @ [tab] @ ''u'' @ [tab] @ ''0'' @ [tab] @ [lf]"
  using convertToCSV_lines
    [of "[\<lparr>timestamp = ''T+5'', postId = None, postText = ''a'' @ [lf] @ ''b'',
           links = [\<lparr>url = ''u'', linkText = ''l''\<rparr>], images = [], metadata = []\<rparr>]"]
  by (simp add: row_def escapeCSV_def str_includes_def replaceAll_def digits.simps)

text \<open>
  When no field of a record holds a bare tab, the line of the record reads back as its
  seven encoded fields, in the order of the header (lemma \<open>columns_in_order\<close> above).
\<close>

text \<open>
  C7. The claim: the export is the sentinel for no record, else a header line and one data
  line for each record, with the columns timestamp, id, text, link count, link URLs,
  media count, media URLs in this order. The sentinel and the lines are as claimed. The
  columns are not: lines are joined with tabs (line 378), but \<^verbatim>\<open>escapeCSV\<close> quotes for a
  comma, a quote or a line break and never for a tab (line 340). Started on a page with
  one post whose text is \<^verbatim>\<open>a\<close>, a tab, \<^verbatim>\<open>b\<close>, the scraper collects that text, and the data
  line of the export reads back as eight columns under a header of seven: the text is
  cut in two and \<^verbatim>\<open>b\<close> stands in the column of the link count.
\<close>

theorem tab_in_text_shifts_columns:
  "map postText (collectedData (run demoBrowser [Message (startRequest ''text'')] (init tabPage)))
     = [''a'' @ [tab] @ ''b''] \<and>
   convertToCSV (collectedData (run demoBrowser [Message (startRequest ''text'')] (init tabPage)))
     = join [tab] headers @ [lf] @
       ''T+0'' @ [tab] @ [tab] @ ''a'' @ [tab] @ ''b'' @ [tab] @ ''0'' @ [tab] @ [tab] @ ''0''
         @ [tab] @ [lf] \<and>
   columns (join [tab] headers) = headers \<and>
   length headers = 7 \<and>
   map (\<lambda>p. columns (join [tab] (row p)))
       (collectedData (run demoBrowser [Message (startRequest ''text'')] (init tabPage)))
     = [[''T+0'', [], ''a'', ''b'', ''0'', [], ''0'', []]]"
  by (simp add: demo_defs columns_def convertToCSV_def row_def escapeCSV_def str_includes_def
        replaceAll_def headers_def digits.simps)

section \<open>Start, stop and clear\<close>

text \<open>
  C8. \<^verbatim>\<open>cleanData\<close> empties the store and changes nothing else: the state after it is the
  state before it with \<^verbatim>\<open>collectedData\<close> set to the empty array. The request
  \<^verbatim>\<open>cleanData\<close> answers with count 0, and so does \<^verbatim>\<open>getDataCount\<close> after it. In
  particular both parts of the dedup index, the active flag, the observer and the timers
  are as before, and the dedup decision about any node is the same as before.
\<close>

theorem cleanData_frame:
  "cleanData s = (True, s\<lparr>collectedData := []\<rparr>) \<and>
   handleMessage B \<lparr>action = ''cleanData'', selector = sel\<rparr> s
     = (Some (Count True 0), s\<lparr>collectedData := []\<rparr>) \<and>
   fst (handleMessage B \<lparr>action = ''getDataCount'', selector = sel\<rparr> (snd (cleanData s)))
     = Some (Count True 0) \<and>
   collectedData (snd (cleanData s)) = [] \<and>
   processed (snd (cleanData s)) = processed s \<and>
   processedIds (snd (cleanData s)) = processedIds s \<and>
   isActive (snd (cleanData s)) = isActive s \<and>
   observer (snd (cleanData s)) = observer s \<and>
   observing (snd (cleanData s)) = observing s \<and>
   debounceTimer (snd (cleanData s)) = debounceTimer s \<and>
   timers (snd (cleanData s)) = timers s \<and>
   shouldProcess post (snd (cleanData s)) = shouldProcess post s"
  by (simp add: cleanData_def handleMessage_def shouldProcess_def)

text \<open>
  C8 on the page with the twin posts: after the start two records are in the store;
  after the clear the store is empty, the scraper is still active, and the first post is
  still rejected.
\<close>

theorem cleanData_frame_witness:
  "length (collectedData (run demoBrowser [Message (startRequest ''text'')] (init twinPage))) = 2 \<and>
   collectedData (snd (cleanData (run demoBrowser [Message (startRequest ''text'')] (init twinPage)))) = [] \<and>
   isActive (snd (cleanData (run demoBrowser [Message (startRequest ''text'')] (init twinPage)))) \<and>
   \<not> shouldProcess (article 1 [(''data-id'', ''urn:li:1'')] ''first'' [])
       (snd (cleanData (run demoBrowser [Message (startRequest ''text'')] (init twinPage))))"
proof -
  have a: "length (collectedData (run demoBrowser [Message (startRequest ''text'')] (init twinPage))) = 2"
    by (simp add: demo_defs)
  have b: "isActive (run demoBrowser [Message (startRequest ''text'')] (init twinPage))"
    by (simp add: demo_defs)
  have c: "\<not> shouldProcess (article 1 [(''data-id'', ''urn:li:1'')] ''first'' [])
       (run demoBrowser [Message (startRequest ''text'')] (init twinPage))"
    by (simp add: demo_defs)
  from cleanData_frame [of "run demoBrowser [Message (startRequest ''text'')] (init twinPage)"
      demoBrowser None "article 1 [(''data-id'', ''urn:li:1'')] ''first'' []"]
  have "collectedData (snd (cleanData (run demoBrowser [Message (startRequest ''text'')] (init twinPage)))) = [] \<and>
        isActive (snd (cleanData (run demoBrowser [Message (startRequest ''text'')] (init twinPage))))
          = isActive (run demoBrowser [Message (startRequest ''text'')] (init twinPage)) \<and>
        shouldProcess (article 1 [(''data-id'', ''urn:li:1'')] ''first'' [])
            (snd (cleanData (run demoBrowser [Message (startRequest ''text'')] (init twinPage))))
          = shouldProcess (article 1 [(''data-id'', ''urn:li:1'')] ''first'' [])
              (run demoBrowser [Message (startRequest ''text'')] (init twinPage))"
    by blast
  with a b c show ?thesis by blast
qed

text \<open>
  C9. Take any state the scraper can reach from its construction, and stop it there. Then
  no debounce timer is pending and no observer is observing; and as long as no start is
  requested, whatever else happens (time passing, timers being run, the page changing,
  other messages), no debounce timer is ever pending again, no observer observes, and
  \<^verbatim>\<open>handleMutations\<close> does not run. In any state at all, stopping a scraper that is not
  active changes nothing.
\<close>

theorem stop_cancels_watcher:
  assumes "\<forall>ev \<in> set evs. \<not> startEvent ev"
  shows "filter isDebounce (timers (stopScraper (run B history (init doc)))) = [] \<and>
         observing (stopScraper (run B history (init doc))) = [] \<and>
         filter isDebounce (timers (run B evs (stopScraper (run B history (init doc))))) = [] \<and>
         observing (run B evs (stopScraper (run B history (init doc)))) = [] \<and>
         resolved (run B evs (stopScraper (run B history (init doc))))
           = resolved (run B history (init doc)) \<and>
         (\<not> isActive s \<longrightarrow> stopScraper s = s)"
proof -
  let ?s = "run B history (init doc)"
  have w: "wellFormed ?s" using wellFormed_init by (rule run_wellFormed)
  then have q: "quiet (stopScraper ?s)" by (rule stopScraper_quiet)
  from run_quiet [OF q assms]
  have r: "quiet (run B evs (stopScraper ?s)) \<and>
           resolved (run B evs (stopScraper ?s)) = resolved (stopScraper ?s)" .
  have "resolved (stopScraper ?s) = resolved ?s"
    by (simp add: stopScraper_def Let_def clearTimeout_def split: option.splits)
  with q r show ?thesis by (simp add: quiet_def stopScraper_def)
qed

text \<open>
  C9 on a started scraper that has received one batch: its debounce timer is pending.
  Left alone, it runs at 100 ms and resolves post 3. Stopped first, the same events
  resolve nothing.
\<close>

theorem stop_cancels_watcher_witness:
  "\<not> startEvent (TimePasses 100) \<and> \<not> startEvent (TimerFires 1) \<and>
   \<not> startEvent (TimerFires 2) \<and>
   filter isDebounce (timers (run demoBrowser (take 2 twoBatches) (init (page []))))
     = [Timer 1 100 (HandleMutations [Mutation [article 3 [(''id'', ''c'')] ''third'' []]])] \<and>
   resolved (run demoBrowser [TimePasses 100, TimerFires 1, TimerFires 2]
               (run demoBrowser (take 2 twoBatches) (init (page [])))) = [[3]] \<and>
   resolved (run demoBrowser [TimePasses 100, TimerFires 1, TimerFires 2]
               (stopScraper (run demoBrowser (take 2 twoBatches) (init (page []))))) = [] \<and>
   \<not> isActive (init (page [])) \<and> stopScraper (init (page [])) = init (page [])"
proof -
  have h: "\<forall>ev \<in> set [TimePasses 100, TimerFires 1, TimerFires 2]. \<not> startEvent ev"
    by (simp add: startEvent_def)
  have a: "filter isDebounce (timers (run demoBrowser (take 2 twoBatches) (init (page []))))
     = [Timer 1 100 (HandleMutations [Mutation [article 3 [(''id'', ''c'')] ''third'' []]])]"
    by (simp add: demo_defs)
  have b: "resolved (run demoBrowser [TimePasses 100, TimerFires 1, TimerFires 2]
               (run demoBrowser (take 2 twoBatches) (init (page [])))) = [[3]]"
    by (simp add: demo_defs)
  have c: "resolved (run demoBrowser (take 2 twoBatches) (init (page []))) = []"
    by (simp add: demo_defs)
  have d: "\<not> isActive (init (page []))"
    by (simp add: init_def)
  have e: "\<not> startEvent (TimePasses 100) \<and> \<not> startEvent (TimerFires 1) \<and>
           \<not> startEvent (TimerFires 2)"
    by (simp add: startEvent_def)
  from stop_cancels_watcher [OF h, of demoBrowser "take 2 twoBatches" "page []" "init (page [])"]
    e a b c d
  show ?thesis by simp
qed

text \<open>
  C10. On an active scraper \<^verbatim>\<open>startScraper\<close> returns at once: the state is the same, so
  there is no second scan, no second observer, and the store, the dedup index and the
  watcher are untouched. The same holds when the stored flag asks for a start. A start
  request from the extension goes through \<^verbatim>\<open>handleMessage\<close>, which may rewrite the
  content selector before it calls \<^verbatim>\<open>startScraper\<close>: nothing but that field can differ.
\<close>

theorem start_when_active:
  assumes "isActive s"
  shows "startScraper B s = s \<and> step B (StateLoaded True) s = s \<and>
         snd (handleMessage B \<lparr>action = ''startScraper'', selector = sel\<rparr> s)
           = s\<lparr>contentSelector :=
                 contentSelector (snd (handleMessage B \<lparr>action = ''startScraper'', selector = sel\<rparr> s))\<rparr>"
  using assms by (simp add: startScraper_def step_def handleMessage_def split: option.splits)

text \<open>
  C10 on the page with the twin posts: after a first start the scraper is active with
  two records, and a second start leaves that state as it is.
\<close>

theorem start_when_active_witness:
  "isActive (run demoBrowser [Message (startRequest ''text'')] (init twinPage)) \<and>
   startScraper demoBrowser (run demoBrowser [Message (startRequest ''text'')] (init twinPage))
     = run demoBrowser [Message (startRequest ''text'')] (init twinPage) \<and>
   length (collectedData (startScraper demoBrowser
       (run demoBrowser [Message (startRequest ''text'')] (init twinPage)))) = 2"
proof -
  have a: "isActive (run demoBrowser [Message (startRequest ''text'')] (init twinPage))"
    by (simp add: demo_defs)
  have b: "length (collectedData (run demoBrowser [Message (startRequest ''text'')] (init twinPage))) = 2"
    by (simp add: demo_defs)
  from start_when_active [OF a, of demoBrowser None] a b show ?thesis by simp
qed

text \<open>
  C6. A start request with selector \<open>sel\<close>: if \<open>sel\<close> holds no dot, the content selector
  becomes \<open>sel\<close> with a dot in front, the answer is success and the scraper is active; if
  \<open>sel\<close> begins with a dot, the content selector becomes \<open>sel\<close>, with the same answer; if
  \<open>sel\<close> holds a dot but not in first place, the answer is \<^verbatim>\<open>Invalid selector\<close> and the
  state is unchanged, so a scraper that was idle stays idle.
\<close>

theorem start_selector:
  "(CHR ''.'' \<notin> set sel \<longrightarrow>
      handleMessage B \<lparr>action = ''startScraper'', selector = Some sel\<rparr> s
        = (Some (Reply True ''Scraper started''), startScraper B (s\<lparr>contentSelector := ''.'' @ sel\<rparr>)) \<and>
      contentSelector (snd (handleMessage B \<lparr>action = ''startScraper'', selector = Some sel\<rparr> s))
        = ''.'' @ sel \<and>
      isActive (snd (handleMessage B \<lparr>action = ''startScraper'', selector = Some sel\<rparr> s))) \<and>
   (sel \<noteq> [] \<and> hd sel = CHR ''.'' \<longrightarrow>
      handleMessage B \<lparr>action = ''startScraper'', selector = Some sel\<rparr> s
        = (Some (Reply True ''Scraper started''), startScraper B (s\<lparr>contentSelector := sel\<rparr>)) \<and>
      contentSelector (snd (handleMessage B \<lparr>action = ''startScraper'', selector = Some sel\<rparr> s))
        = sel \<and>
      isActive (snd (handleMessage B \<lparr>action = ''startScraper'', selector = Some sel\<rparr> s))) \<and>
   (CHR ''.'' \<in> set sel \<and> hd sel \<noteq> CHR ''.'' \<longrightarrow>
      handleMessage B \<lparr>action = ''startScraper'', selector = Some sel\<rparr> s
        = (Some (Reply False ''Invalid selector''), s))"
proof -
  have 1: "CHR ''.'' \<notin> set sel \<Longrightarrow> indexOf sel CHR ''.'' = - 1"
    by (simp add: indexOf_absent)
  have 2: "sel \<noteq> [] \<and> hd sel = CHR ''.'' \<Longrightarrow> indexOf sel CHR ''.'' = 0"
    by (simp add: indexOf_first)
  have 3: "CHR ''.'' \<in> set sel \<and> hd sel \<noteq> CHR ''.''
           \<Longrightarrow> indexOf sel CHR ''.'' \<noteq> 0 \<and> indexOf sel CHR ''.'' \<noteq> - 1"
    by (simp add: indexOf_first indexOf_absent)
  show ?thesis
    using 1 2 3 by (auto simp: handleMessage_def startScraper_config)
qed

text \<open>
  C6 on the selectors \<^verbatim>\<open>foo\<close>, \<^verbatim>\<open>.bar\<close> and \<^verbatim>\<open>bar.baz\<close>, on a new scraper.
\<close>

theorem start_selector_witness:
  "CHR ''.'' \<notin> set ''foo'' \<and>
   contentSelector (snd (handleMessage demoBrowser \<lparr>action = ''startScraper'', selector = Some ''foo''\<rparr>
      (init (page [])))) = ''.foo'' \<and>
   ''.bar'' \<noteq> [] \<and> hd ''.bar'' = CHR ''.'' \<and>
   contentSelector (snd (handleMessage demoBrowser \<lparr>action = ''startScraper'', selector = Some ''.bar''\<rparr>
      (init (page [])))) = ''.bar'' \<and>
   CHR ''.'' \<in> set ''bar.baz'' \<and> hd ''bar.baz'' \<noteq> CHR ''.'' \<and>
   handleMessage demoBrowser \<lparr>action = ''startScraper'', selector = Some ''bar.baz''\<rparr> (init (page []))
     = (Some (Reply False ''Invalid selector''), init (page [])) \<and>
   \<not> isActive (init (page []))"
proof -
  have d: "\<not> isActive (init (page []))"
    by (simp add: init_def)
  have a: "CHR ''.'' \<notin> set ''foo''"
    by simp
  have b: "''.bar'' \<noteq> [] \<and> hd ''.bar'' = CHR ''.''"
    by simp
  have c: "CHR ''.'' \<in> set ''bar.baz'' \<and> hd ''bar.baz'' \<noteq> CHR ''.''"
    by simp
  from start_selector [of "''foo''" demoBrowser "init (page [])"] a
  have "contentSelector (snd (handleMessage demoBrowser
          \<lparr>action = ''startScraper'', selector = Some ''foo''\<rparr> (init (page [])))) = ''.'' @ ''foo''"
    by blast
  then have 1: "contentSelector (snd (handleMessage demoBrowser
          \<lparr>action = ''startScraper'', selector = Some ''foo''\<rparr> (init (page [])))) = ''.foo''"
    by simp
  from start_selector [of "''.bar''" demoBrowser "init (page [])"] b
  have 2: "contentSelector (snd (handleMessage demoBrowser
          \<lparr>action = ''startScraper'', selector = Some ''.bar''\<rparr> (init (page [])))) = ''.bar''"
    by blast
  from start_selector [of "''bar.baz''" demoBrowser "init (page [])"] c
  have 3: "handleMessage demoBrowser \<lparr>action = ''startScraper'', selector = Some ''bar.baz''\<rparr>
             (init (page [])) = (Some (Reply False ''Invalid selector''), init (page []))"
    by blast
  from a b c d 1 2 3 show ?thesis by blast
qed

end
